theory Spec2Isabelle
  imports Main "HOL-Library.Word"
begin

unbundle bit_operations_syntax

section \<open>Data model of the simplex tree\<close>

text \<open>
  The development follows \<^verbatim>\<open>src/libfive/src/render/brep/simplex/simplex_tree.cpp\<close>.
  The headers of \<^verbatim>\<open>Interval\<close>, \<^verbatim>\<open>NeighborIndex\<close>, \<^verbatim>\<open>CornerIndex\<close>, \<^verbatim>\<open>Region\<close>,
  \<^verbatim>\<open>QEF\<close>, \<^verbatim>\<open>XTree\<close>, \<^verbatim>\<open>SimplexNeighbors\<close> and the object pool are not part of
  the sources; what the functions of the file need from them is either a parameter of
  the function or a definition marked \<open>Modelled from the spec\<close>.
\<close>

text \<open>Modelled from the spec: the tag \<^verbatim>\<open>Interval::State\<close> (section 3, "Interval tag").\<close>

datatype interval_state = EMPTY | FILLED | AMBIGUOUS | UNKNOWN

text \<open>
  \<^verbatim>\<open>SimplexLeafSubspace<N>\<close>: the fields that the constructor and \<^verbatim>\<open>reset()\<close> set.
  Floating-point scalars are an opaque type \<open>'s\<close>, the QEF an opaque type \<open>'q\<close>;
  \<^verbatim>\<open>index\<close> is a \<^verbatim>\<open>uint64_t\<close> and \<^verbatim>\<open>refcount\<close> an atomic \<^verbatim>\<open>uint32_t\<close>.
\<close>

record ('q, 's) SimplexLeafSubspace =
  inside :: bool
  index :: "64 word"
  vert :: "'s list"
  qef :: 'q
  refcount :: "32 word"

text \<open>
  Subspace objects are shared between leaves through pointers, so they live in a store
  from addresses to objects, and a leaf holds the addresses.
\<close>

type_synonym ('q, 's) heap = "nat \<Rightarrow> ('q, 's) SimplexLeafSubspace"

text \<open>
  \<^verbatim>\<open>SimplexLeaf<N>\<close>: \<^verbatim>\<open>sub\<close> is the array of \<open>3 ^ N\<close> subspace pointers. (The \<^verbatim>\<open>surface\<close>
  field belongs to the mesher and is left out.)
\<close>

record 'h SimplexLeaf =
  level :: nat
  tape :: "'h option"
  sub :: "nat list"

text \<open>
  A node of the tree. Modelled from the spec: the fields inherited from \<^verbatim>\<open>XTree\<close>
  (section 3, "SimplexTree"): a node is a branch when it has children, \<^verbatim>\<open>pending\<close> is
  the join counter, and \<^verbatim>\<open>done()\<close> marks the node as finished (\<open>done_flag\<close>).
\<close>

datatype 'h SimplexTree =
  SimplexTree (type: interval_state) (leaf: "'h SimplexLeaf option")
    (children: "'h SimplexTree list") (pending: int) (done_flag: bool)

definition isBranch :: "'h SimplexTree \<Rightarrow> bool" where
  "isBranch t = (children t \<noteq> [])"

definition xtree_done :: "'h SimplexTree \<Rightarrow> 'h SimplexTree" where
  "xtree_done t = SimplexTree (type t) (leaf t) (children t) (pending t) True"

definition set_type :: "interval_state \<Rightarrow> 'h SimplexTree \<Rightarrow> 'h SimplexTree" where
  "set_type ty t = SimplexTree ty (leaf t) (children t) (pending t) (done_flag t)"

definition set_leaf :: "'h SimplexLeaf option \<Rightarrow> 'h SimplexTree \<Rightarrow> 'h SimplexTree" where
  "set_leaf l t = SimplexTree (type t) l (children t) (pending t) (done_flag t)"

definition set_pending :: "int \<Rightarrow> 'h SimplexTree \<Rightarrow> 'h SimplexTree" where
  "set_pending p t = SimplexTree (type t) (leaf t) (children t) p (done_flag t)"

section \<open>NeighborIndex and CornerIndex\<close>

text \<open>Modelled from the spec: \<^verbatim>\<open>ipow(b, e)\<close> is the integer power (the spec writes \<open>3\<^sup>N\<close>, \<open>2\<^sup>N\<close>).\<close>

definition ipow :: "nat \<Rightarrow> nat \<Rightarrow> nat" where
  "ipow b e = b ^ e"

text \<open>
  Modelled from the spec: \<^verbatim>\<open>NeighborIndex\<close> (section 3): a value in \<open>[0, 3\<^sup>N)\<close> with one
  base-3 digit per axis, LOW = 0, FLOATING = 1, HIGH = 2. \<open>floating\<close> is the mask of the
  floating axes, \<open>pos\<close> the mask of the non-floating axes set HIGH, \<open>fixed\<close> the
  complement of \<open>floating\<close> on the \<open>N\<close> axes, \<open>dimension\<close> the number of floating axes.
\<close>

fun floating :: "nat \<Rightarrow> nat" where
  "floating j = (if j = 0 then 0
     else (if j mod 3 = 1 then 1 else 0) + 2 * floating (j div 3))"

fun pos :: "nat \<Rightarrow> nat" where
  "pos j = (if j = 0 then 0
     else (if j mod 3 = 2 then 1 else 0) + 2 * pos (j div 3))"

fun dimension :: "nat \<Rightarrow> nat" where
  "dimension j = (if j = 0 then 0
     else (if j mod 3 = 1 then 1 else 0) + dimension (j div 3))"

definition fixed :: "nat \<Rightarrow> nat \<Rightarrow> nat" where
  "fixed N j = mask N XOR take_bit N (floating j)"

text \<open>
  Modelled from the spec: \<^verbatim>\<open>NeighborIndex::fromPosAndFloating\<close> builds the index whose
  digit on an axis is FLOATING when the axis is in the floating mask, HIGH when it is in
  the position mask, and LOW otherwise.
\<close>

function fromPosAndFloating :: "nat \<Rightarrow> nat \<Rightarrow> nat" where
  "fromPosAndFloating p f = (if p = 0 \<and> f = 0 then 0
     else (if odd f then 1 else if odd p then 2 else 0)
          + 3 * fromPosAndFloating (p div 2) (f div 2))"
  by pat_completeness auto
termination
  by (relation "measure (\<lambda>(p, f). p + f)") auto

text \<open>
  Modelled from the spec: \<open>contains s r\<close> is \<^verbatim>\<open>NeighborIndex(s).contains(NeighborIndex(r))\<close>:
  "every axis fixed in self is fixed identically in other" (section 3).
\<close>

function contains :: "nat \<Rightarrow> nat \<Rightarrow> bool" where
  "contains s r = (if s = 0 \<and> r = 0 then True
     else (s mod 3 = 1 \<or> s mod 3 = r mod 3) \<and> contains (s div 3) (r div 3))"
  by pat_completeness auto
termination
  by (relation "measure (\<lambda>(s, r). s + r)") auto

text \<open>
  Modelled from the spec: \<^verbatim>\<open>CornerIndex(i).neighbor()\<close> is the \<^verbatim>\<open>NeighborIndex\<close> with all
  axes fixed, HIGH where the bit of \<open>i\<close> is set.
\<close>

definition corner_neighbor :: "nat \<Rightarrow> nat" where
  "corner_neighbor i = fromPosAndFloating i 0"

declare floating.simps [simp del] pos.simps [simp del] dimension.simps [simp del]
  fromPosAndFloating.simps [simp del] contains.simps [simp del]

section \<open>collectChildren: which child QEFs are summed into which parent subspace\<close>

text \<open>
  Lines 441-446: \<open>collect_valid N i j\<close> is the flag \<^verbatim>\<open>valid\<close> for child \<open>i\<close> and child
  subspace \<open>j\<close>. The C++ tests \<^verbatim>\<open>fixed & (1 << d)\<close>, \<^verbatim>\<open>pos & (1 << d)\<close> and
  \<^verbatim>\<open>child.i & (1 << d)\<close> are written as they are.
\<close>

definition collect_valid :: "nat \<Rightarrow> nat \<Rightarrow> nat \<Rightarrow> bool" where
  "collect_valid N i j =
     (let fixed' = fixed N j; pos' = pos j
      in fold (\<lambda>d valid.
            if fixed' AND push_bit d 1 \<noteq> 0
            then valid \<and> (pos' AND push_bit d 1 \<noteq> 0 \<or> i AND push_bit d 1 \<noteq> 0)
            else valid) [0..<N] True)"

text \<open>
  Lines 458-470: the masks \<^verbatim>\<open>floating_out\<close> and \<^verbatim>\<open>pos_out\<close>, both \<^verbatim>\<open>uint8_t\<close> (hence
  \<open>take_bit 8\<close> on every assignment). The comparison on line 462 is against
  \<^verbatim>\<open>child.i & (1 << N)\<close>, as in the source.
\<close>

definition collect_masks :: "nat \<Rightarrow> nat \<Rightarrow> nat \<Rightarrow> nat \<times> nat" where
  "collect_masks N i j =
     (let floating' = floating j; pos' = pos j
      in fold (\<lambda>d (floating_out, pos_out).
            if floating' AND push_bit d 1 \<noteq> 0
               \<or> pos' AND push_bit d 1 \<noteq> i AND push_bit N 1
            then (take_bit 8 (floating_out OR push_bit d 1), pos_out)
            else (floating_out, take_bit 8 (pos_out OR (pos' AND push_bit d 1))))
          [0..<N] (0, 0))"

text \<open>Lines 471-472: the parent subspace \<^verbatim>\<open>target.i\<close>.\<close>

definition collect_target :: "nat \<Rightarrow> nat \<Rightarrow> nat \<Rightarrow> nat" where
  "collect_target N i j =
     (case collect_masks N i j of (floating_out, pos_out) \<Rightarrow>
        fromPosAndFloating pos_out floating_out)"

text \<open>
  Lines 420-475: the loop nest. \<open>ambiguous i\<close> stands for
  \<^verbatim>\<open>cs[i]->type == Interval::AMBIGUOUS\<close>, and \<open>body i j target\<close> for the statement of
  line 473, which is the only effect of the nest.
\<close>

definition collect_loop ::
  "nat \<Rightarrow> (nat \<Rightarrow> bool) \<Rightarrow> (nat \<Rightarrow> nat \<Rightarrow> nat \<Rightarrow> 'st \<Rightarrow> 'st) \<Rightarrow> 'st \<Rightarrow> 'st" where
  "collect_loop N ambiguous body st =
     fold (\<lambda>i st.
        if \<not> ambiguous i then st
        else fold (\<lambda>j st.
               if \<not> collect_valid N i j then st
               else body i j (collect_target N i j) st) [0..<ipow 3 N] st)
       [0..<ipow 2 N] st"

text \<open>
  Line 473: \<^verbatim>\<open>this->leaf->sub[target.i]->qef += cs[i]->leaf->sub[j]->qef\<close>, on the store.
  \<open>psub\<close> is the parent leaf's \<^verbatim>\<open>sub\<close> array; the source asserts that the leaf of an
  AMBIGUOUS child is not null.
\<close>

definition add_qef ::
  "('q \<Rightarrow> 'q \<Rightarrow> 'q) \<Rightarrow> nat list \<Rightarrow> 'h SimplexTree list \<Rightarrow> nat \<Rightarrow> nat \<Rightarrow> nat
     \<Rightarrow> ('q, 's) heap \<Rightarrow> ('q, 's) heap" where
  "add_qef add psub cs i j target h =
     (let dst = psub ! target; src = sub (the (leaf (cs ! i))) ! j
      in h(dst := (h dst)\<lparr>qef := add (qef (h dst)) (qef (h src))\<rparr>))"

definition collect_qefs ::
  "('q \<Rightarrow> 'q \<Rightarrow> 'q) \<Rightarrow> nat \<Rightarrow> nat list \<Rightarrow> 'h SimplexTree list
     \<Rightarrow> ('q, 's) heap \<Rightarrow> ('q, 's) heap" where
  "collect_qefs add N psub cs h =
     collect_loop N (\<lambda>i. type (cs ! i) = AMBIGUOUS) (add_qef add psub cs) h"

text \<open>The accumulations that the nest performs, in order: (child, child subspace, parent subspace).\<close>

definition collect_ops :: "nat \<Rightarrow> (nat \<Rightarrow> bool) \<Rightarrow> (nat \<times> nat \<times> nat) list" where
  "collect_ops N ambiguous =
     collect_loop N ambiguous (\<lambda>i j target ops. ops @ [(i, j, target)]) []"


text \<open>The same accumulations as a comprehension over children and child subspaces.\<close>

definition collect_list :: "nat \<Rightarrow> (nat \<Rightarrow> bool) \<Rightarrow> (nat \<times> nat \<times> nat) list" where
  "collect_list N ambiguous =
     concat (map (\<lambda>i. if ambiguous i
        then map (\<lambda>j. (i, j, collect_target N i j)) (filter (collect_valid N i) [0..<ipow 3 N])
        else []) [0..<ipow 2 N])"

section \<open>Region, evaluators, QEF and the object pool\<close>

text \<open>
  Modelled from the spec: \<^verbatim>\<open>Region<N>\<close> (section 3): \<open>lower\<close>, \<open>upper\<close> in \<open>N\<close> dimensions and
  the perpendicular coordinates; \<open>corner N r i\<close> takes \<open>upper\<close> on the axes whose bit of
  \<open>i\<close> is set; \<open>lower3\<close>, \<open>upper3\<close> append the perpendicular coordinates.
\<close>

record 's Region =
  lower :: "'s list"
  upper :: "'s list"
  perp :: "'s list"

definition corner :: "nat \<Rightarrow> 's Region \<Rightarrow> nat \<Rightarrow> 's list" where
  "corner N r i = map (\<lambda>d. if bit i d then upper r ! d else lower r ! d) [0..<N]"

definition lower3 :: "'s Region \<Rightarrow> 's list" where
  "lower3 r = lower r @ perp r"

definition upper3 :: "'s Region \<Rightarrow> 's list" where
  "upper3 r = upper r @ perp r"

text \<open>
  The collaborators whose code is outside the file, as parameters: the interval, array
  and feature evaluators of \<^verbatim>\<open>XTreeEvaluator\<close> (answers as functions of the point and
  the tape), the float/double conversions, the operations of \<^verbatim>\<open>QEF\<close> (\<open>'q\<close> is
  \<^verbatim>\<open>QEF<N>\<close>, \<open>'p\<close> a projected \<^verbatim>\<open>QEF<M>\<close>) and \<^verbatim>\<open>Region::subspace\<close> (\<open>'r\<close> is the reduced
  region). \<open>solveBounded\<close> returns the position and the error of the solution.
\<close>

record ('q, 'p, 'r, 's, 'i, 'h) env =
  interval_evalAndPush :: "'s list \<Rightarrow> 's list \<Rightarrow> 'h \<Rightarrow> 'i \<times> 'h"
  interval_isSafe :: "'s list \<Rightarrow> 's list \<Rightarrow> 'h \<Rightarrow> bool"
  Interval_state :: "'i \<Rightarrow> interval_state"
  array_values :: "'s list \<Rightarrow> 'h \<Rightarrow> 's"
  array_derivs :: "'s list \<Rightarrow> 'h \<Rightarrow> 's list \<times> 's"
  array_getAmbiguous :: "'s list \<Rightarrow> 'h \<Rightarrow> bool"
  feature_features :: "'s list \<Rightarrow> 'h \<Rightarrow> 's list list"
  feature_isInside :: "'s list \<Rightarrow> 'h \<Rightarrow> bool"
  to_float :: "'s \<Rightarrow> 's"
  to_double :: "'s \<Rightarrow> 's"
  isFinite :: "'s \<Rightarrow> bool"
  qef_zero :: 'q
  qef_insert :: "'q \<Rightarrow> 's list \<Rightarrow> 's list \<Rightarrow> 's \<Rightarrow> 'q"
  qef_add :: "'q \<Rightarrow> 'q \<Rightarrow> 'q"
  qef_sub :: "nat \<Rightarrow> 'q \<Rightarrow> 'p"
  sub_zero :: "nat \<Rightarrow> 'p"
  sub_add :: "'p \<Rightarrow> 'p \<Rightarrow> 'p"
  solveBounded :: "'p \<Rightarrow> 'r \<Rightarrow> 's list \<times> 's"
  region_subspace :: "nat \<Rightarrow> 's Region \<Rightarrow> 'r"

definition corner3f :: "('q, 'p, 'r, 's, 'i, 'h) env \<Rightarrow> nat \<Rightarrow> 's Region \<Rightarrow> nat \<Rightarrow> 's list" where
  "corner3f env N r i = map (to_float env) (corner N r i @ perp r)"

text \<open>
  Lines 36-51: the constructor sets \<^verbatim>\<open>inside\<close>, \<^verbatim>\<open>index\<close> and the QEF and leaves the other
  fields as they are; \<^verbatim>\<open>reset()\<close> sets every field.
\<close>

definition SimplexLeafSubspace_init ::
  "'q \<Rightarrow> ('q, 's) SimplexLeafSubspace \<Rightarrow> ('q, 's) SimplexLeafSubspace" where
  "SimplexLeafSubspace_init qz obj = obj\<lparr>inside := False, index := 0, qef := qz\<rparr>"

definition SimplexLeafSubspace_reset ::
  "nat \<Rightarrow> 'q \<Rightarrow> ('q, 's::zero) SimplexLeafSubspace" where
  "SimplexLeafSubspace_reset N qz =
     \<lparr>inside = False, index = 0, vert = replicate N 0, qef = qz, refcount = 0\<rparr>"

text \<open>Lines 61-68: a leaf after \<^verbatim>\<open>reset()\<close>; the null pointer is the address \<open>0\<close>.\<close>

definition SimplexLeaf_reset :: "nat \<Rightarrow> 'h SimplexLeaf" where
  "SimplexLeaf_reset N = \<lparr>level = 0, tape = None, sub = replicate (ipow 3 N) 0\<rparr>"

text \<open>
  Modelled from the spec: the object pool of subspaces (section 4.3): \<open>get\<close> reuses a
  returned object or allocates a new one, \<open>put\<close> resets the object and keeps it for
  reuse. \<open>free\<close> are the returned objects, \<open>fresh\<close> is the first address never handed out.
\<close>

record pool =
  free :: "nat list"
  fresh :: nat

definition pool_get ::
  "'q \<Rightarrow> pool \<Rightarrow> ('q, 's) heap \<Rightarrow> nat \<times> pool \<times> ('q, 's) heap" where
  "pool_get qz p h =
     (case free p of
        a # as \<Rightarrow> (a, p\<lparr>free := as\<rparr>, h)
      | [] \<Rightarrow> (fresh p, p\<lparr>fresh := Suc (fresh p)\<rparr>,
                h(fresh p := SimplexLeafSubspace_init qz (h (fresh p)))))"

definition pool_put ::
  "nat \<Rightarrow> 'q \<Rightarrow> nat \<Rightarrow> pool \<Rightarrow> ('q, 's::zero) heap \<Rightarrow> pool \<times> ('q, 's) heap" where
  "pool_put N qz a p h = (p\<lparr>free := a # free p\<rparr>, h(a := SimplexLeafSubspace_reset N qz))"

text \<open>
  Lines 70-80, \<^verbatim>\<open>SimplexLeaf<N>::releaseTo\<close>: every subspace loses one reference and goes
  back to the pool when none is left; the leaf itself is returned by the caller's
  \<^verbatim>\<open>leaf = nullptr\<close>.
\<close>

definition SimplexLeaf_releaseTo ::
  "nat \<Rightarrow> 'q \<Rightarrow> 'h SimplexLeaf \<Rightarrow> pool \<Rightarrow> ('q, 's::zero) heap \<Rightarrow> pool \<times> ('q, 's) heap" where
  "SimplexLeaf_releaseTo N qz l p h =
     fold (\<lambda>s (p, h).
        let h1 = h(s := (h s)\<lparr>refcount := refcount (h s) - 1\<rparr>)
        in if refcount (h1 s) = 0 then pool_put N qz s p h1 else (p, h1))
       (sub l) (p, h)"

text \<open>Lines 604-611, \<^verbatim>\<open>SimplexTree<N>::releaseTo\<close>.\<close>

definition SimplexTree_releaseTo ::
  "nat \<Rightarrow> 'q \<Rightarrow> 'h SimplexTree \<Rightarrow> pool \<Rightarrow> ('q, 's::zero) heap
     \<Rightarrow> 'h SimplexTree \<times> pool \<times> ('q, 's) heap" where
  "SimplexTree_releaseTo N qz t p h =
     (case leaf t of
        Some l \<Rightarrow> (case SimplexLeaf_releaseTo N qz l p h of (p', h') \<Rightarrow> (set_leaf None t, p', h'))
      | None \<Rightarrow> (t, p, h))"

text \<open>
  Modelled from the spec: \<^verbatim>\<open>XTree::releaseChildren\<close> (section 4.6, "release all
  children"): every child is released to the pool and the node has no children left.
\<close>

definition releaseChildren ::
  "nat \<Rightarrow> 'q \<Rightarrow> 'h SimplexTree \<Rightarrow> pool \<Rightarrow> ('q, 's::zero) heap
     \<Rightarrow> 'h SimplexTree \<times> pool \<times> ('q, 's) heap" where
  "releaseChildren N qz t p h =
     (case fold (\<lambda>c (p, h). case SimplexTree_releaseTo N qz c p h of (c', p', h') \<Rightarrow> (p', h'))
             (children t) (p, h) of
        (p', h') \<Rightarrow> (SimplexTree (type t) (leaf t) [] (pending t) (done_flag t), p', h'))"

section \<open>evalInterval\<close>

text \<open>Lines 107-130. The result is the returned tape handle and the node.\<close>

definition evalInterval ::
  "('q, 'p, 'r, 's, 'i, 'h) env \<Rightarrow> 's Region \<Rightarrow> 'h \<Rightarrow> 'h SimplexTree \<Rightarrow> 'h \<times> 'h SimplexTree" where
  "evalInterval env region tape' t =
     (let lo = map (to_float env) (lower3 region);
          up = map (to_float env) (upper3 region);
          res = interval_evalAndPush env lo up tape';
          t1 = set_type (Interval_state env (fst res)) t
      in if \<not> interval_isSafe env lo up tape'
         then (tape', set_type AMBIGUOUS t1)
         else (snd res, if type t1 = FILLED \<or> type t1 = EMPTY then xtree_done t1 else t1))"

section \<open>The subspace vertex solve (Unroller)\<close>

text \<open>\<^verbatim>\<open>std::max(a, b)\<close> is \<^verbatim>\<open>(a < b) ? b : a\<close>.\<close>

definition std_max :: "'s::ord \<Rightarrow> 's \<Rightarrow> 's" where
  "std_max a b = (if a < b then b else a)"

text \<open>Lines 154-159: the QEF collected for subspace \<open>s\<close> of the leaf whose \<^verbatim>\<open>sub\<close> array is \<open>lsub\<close>.\<close>

definition Unroller_qef ::
  "('q, 'p, 'r, 's, 'i, 'h) env \<Rightarrow> nat \<Rightarrow> nat list \<Rightarrow> ('q, 's) heap \<Rightarrow> nat \<Rightarrow> 'p" where
  "Unroller_qef env N lsub h s =
     fold (\<lambda>i q. if contains s i then sub_add env q (qef_sub env (floating s) (qef (h (lsub ! i))))
                  else q)
       [0..<ipow 3 N] (sub_zero env (dimension s))"

text \<open>Lines 166-175: unpacking the reduced solution into the vertex of subspace \<open>s\<close>.\<close>

definition Unroller_unpack :: "nat \<Rightarrow> nat \<Rightarrow> 's Region \<Rightarrow> 's list \<Rightarrow> 's list \<Rightarrow> 's list" where
  "Unroller_unpack N s region position v =
     snd (fold (\<lambda>i (j, v).
            if floating s AND push_bit i 1 \<noteq> 0 then (j + 1, v[i := position ! j])
            else if pos s AND push_bit i 1 \<noteq> 0 then (j, v[i := upper region ! i])
            else (j, v[i := lower region ! i]))
          [0..<N] (0::nat, v))"

text \<open>Lines 146-177: the body of \<^verbatim>\<open>Unroller<N, s>::operator()\<close> before the recursive call.\<close>

definition Unroller_body ::
  "('q, 'p, 'r, 's::{zero,ord}, 'i, 'h) env \<Rightarrow> nat \<Rightarrow> nat list \<Rightarrow> bool list \<Rightarrow> 's Region
     \<Rightarrow> ('q, 's) heap \<Rightarrow> nat \<Rightarrow> 's \<times> ('q, 's) heap" where
  "Unroller_body env N lsub already_solved region h s =
     (if \<not> already_solved ! s
      then let qef' = Unroller_qef env N lsub h s;
               r = region_subspace env (floating s) region;
               sol = solveBounded env qef' r;
               a = lsub ! s
           in (snd sol, h(a := (h a)\<lparr>vert := Unroller_unpack N s region (fst sol) (vert (h a))\<rparr>))
      else (0, h))"

text \<open>
  Lines 134-196: \<open>Unroller env N (Suc s)\<close> is \<^verbatim>\<open>Unroller<N, s>\<close> and \<open>Unroller env N 0\<close> is the
  terminating \<^verbatim>\<open>Unroller<N, -1>\<close>.
\<close>

fun Unroller ::
  "('q, 'p, 'r, 's::{zero,ord}, 'i, 'h) env \<Rightarrow> nat \<Rightarrow> nat \<Rightarrow> nat list \<Rightarrow> bool list \<Rightarrow> 's Region
     \<Rightarrow> ('q, 's) heap \<Rightarrow> 's \<times> ('q, 's) heap" where
  "Unroller env N 0 lsub already_solved region h = (0, h)"
| "Unroller env N (Suc s) lsub already_solved region h =
     (case Unroller_body env N lsub already_solved region h s of (error, h1) \<Rightarrow>
        (case Unroller env N s lsub already_solved region h1 of (rest, h2) \<Rightarrow>
           (std_max error rest, h2)))"

text \<open>
  The sum that the claim describes (used only to compare with \<open>Unroller_qef\<close>): over
  the subspaces \<open>r\<close> that contain \<open>s\<close>.
\<close>

definition claimed_qef ::
  "('q, 'p, 'r, 's, 'i, 'h) env \<Rightarrow> nat \<Rightarrow> nat list \<Rightarrow> ('q, 's) heap \<Rightarrow> nat \<Rightarrow> 'p" where
  "claimed_qef env N lsub h s =
     foldl (sub_add env) (sub_zero env (dimension s))
       (map (\<lambda>r. qef_sub env (floating s) (qef (h (lsub ! r))))
            (filter (\<lambda>r. contains r s) [0..<ipow 3 N]))"

section \<open>saveVertexSigns\<close>

text \<open>Lines 517-519: the point \<^verbatim>\<open>p\<close> of a vertex.\<close>

definition vertex_point ::
  "('q, 'p, 'r, 's, 'i, 'h) env \<Rightarrow> 's Region \<Rightarrow> 's list \<Rightarrow> 's list" where
  "vertex_point env region v = map (to_float env) v @ map (to_float env) (perp region)"

text \<open>Lines 523-530: the flag \<^verbatim>\<open>inside\<close> computed for a vertex.\<close>

definition vertex_sign ::
  "('q, 'p, 'r, 's::{zero,ord}, 'i, 'h) env \<Rightarrow> 'h \<Rightarrow> 's Region \<Rightarrow> 's list \<Rightarrow> bool" where
  "vertex_sign env tape' region v =
     (let p = vertex_point env region v;
          out = array_values env p tape'
      in if out = 0 then feature_isInside env p tape' else out < 0)"

text \<open>Lines 512-532: the body of the loop, for subspace \<open>i\<close>.\<close>

definition saveVertexSigns_body ::
  "('q, 'p, 'r, 's::{zero,ord}, 'i, 'h) env \<Rightarrow> 'h \<Rightarrow> 's Region \<Rightarrow> bool list \<Rightarrow> nat list
     \<Rightarrow> nat \<Rightarrow> ('q, 's) heap \<Rightarrow> ('q, 's) heap" where
  "saveVertexSigns_body env tape' region already_solved lsub i h =
     (if already_solved ! i then h
      else let a = lsub ! i
           in h(a := (h a)\<lparr>inside := vertex_sign env tape' region (vert (h a))\<rparr>))"

text \<open>Lines 504-534.\<close>

definition saveVertexSigns ::
  "('q, 'p, 'r, 's::{zero,ord}, 'i, 'h) env \<Rightarrow> nat \<Rightarrow> 'h \<Rightarrow> 's Region \<Rightarrow> bool list \<Rightarrow> nat list
     \<Rightarrow> ('q, 's) heap \<Rightarrow> ('q, 's) heap" where
  "saveVertexSigns env N tape' region already_solved lsub h =
     fold (saveVertexSigns_body env tape' region already_solved lsub) [0..<ipow 3 N] h"

section \<open>evalLeaf\<close>

text \<open>
  Lines 225-234: borrowing from the neighbours. \<open>check i\<close> stands for
  \<^verbatim>\<open>neighbors.check(NeighborIndex(i))\<close>: \<open>None\<close> when \<^verbatim>\<open>c.first\<close> is null, otherwise the
  neighbour's leaf and the index \<^verbatim>\<open>c.second.i\<close>. The result is the \<^verbatim>\<open>sub\<close> array,
  \<^verbatim>\<open>already_solved\<close>, the pool and the store.
\<close>

definition evalLeaf_borrow ::
  "'q \<Rightarrow> nat \<Rightarrow> (nat \<Rightarrow> ('h SimplexLeaf \<times> nat) option) \<Rightarrow> pool \<Rightarrow> ('q, 's) heap
     \<Rightarrow> nat list \<times> bool list \<times> pool \<times> ('q, 's) heap" where
  "evalLeaf_borrow qz N check p h =
     fold (\<lambda>i (lsub, already_solved, p, h).
        case (case check i of
                Some (nleaf, k) \<Rightarrow> (sub nleaf ! k, already_solved[i := True], p, h)
              | None \<Rightarrow> (case pool_get qz p h of (a, p', h') \<Rightarrow> (a, already_solved, p', h')))
        of (a, already_solved', p', h') \<Rightarrow>
          (lsub[i := a], already_solved', p',
           h'(a := (h' a)\<lparr>refcount := refcount (h' a) + 1\<rparr>)))
       [0..<ipow 3 N]
       (replicate (ipow 3 N) 0, replicate (ipow 3 N) False, p, h)"

text \<open>Lines 242-248: the corners that have to be evaluated (\<^verbatim>\<open>corner_indices\<close>, of length \<^verbatim>\<open>count\<close>).\<close>

definition evalLeaf_corners :: "nat \<Rightarrow> bool list \<Rightarrow> nat list" where
  "evalLeaf_corners N already_solved =
     fold (\<lambda>i corner_indices.
        if \<not> already_solved ! corner_neighbor i then corner_indices @ [i] else corner_indices)
       [0..<ipow 2 N] []"

text \<open>Lines 260-274: the helper \<^verbatim>\<open>push\<close>, for the corner \<open>ci\<close> whose subspace object is \<open>a\<close>.\<close>

definition evalLeaf_push ::
  "('q, 'p, 'r, 's::zero, 'i, 'h) env \<Rightarrow> nat \<Rightarrow> 's Region \<Rightarrow> nat \<Rightarrow> 's \<Rightarrow> nat \<Rightarrow> 's list
     \<Rightarrow> ('q, 's) heap \<Rightarrow> ('q, 's) heap" where
  "evalLeaf_push env N region ci val a d h =
     (let d0 = map (to_double env) (take N d);
          d1 = (if \<not> list_all (isFinite env) d0 then replicate N 0 else d0)
      in h(a := (h a)\<lparr>qef := qef_insert env (qef (h a)) (corner N region ci) d1 (to_double env val)\<rparr>))"

text \<open>Lines 252-290: unpacking the derivatives into the corner QEFs.\<close>

definition evalLeaf_sample ::
  "('q, 'p, 'r, 's::zero, 'i, 'h) env \<Rightarrow> nat \<Rightarrow> 's Region \<Rightarrow> 'h \<Rightarrow> nat list \<Rightarrow> nat list
     \<Rightarrow> ('q, 's) heap \<Rightarrow> ('q, 's) heap" where
  "evalLeaf_sample env N region tape' lsub corner_indices h =
     fold (\<lambda>i h.
        let ci = corner_indices ! i;
            a = lsub ! corner_neighbor ci;
            p = corner3f env N region ci;
            ds = array_derivs env p tape'
        in if array_getAmbiguous env p tape'
           then fold (evalLeaf_push env N region ci (snd ds) a) (feature_features env p tape') h
           else evalLeaf_push env N region ci (snd ds) a (fst ds) h)
       [0..<length corner_indices] h"

text \<open>Lines 206-296: the leaf, the pool and the store when the vertex signs have been saved.\<close>

definition evalLeaf_solve ::
  "('q, 'p, 'r, 's::{zero,ord}, 'i, 'h) env \<Rightarrow> nat \<Rightarrow> (nat \<Rightarrow> ('h SimplexLeaf \<times> nat) option)
     \<Rightarrow> 's Region \<Rightarrow> 'h \<Rightarrow> pool \<Rightarrow> ('q, 's) heap
     \<Rightarrow> 'h SimplexLeaf \<times> bool list \<times> pool \<times> ('q, 's) heap" where
  "evalLeaf_solve env N check region tape' p h =
     (case evalLeaf_borrow (qef_zero env) N check p h of (lsub, already_solved, p1, h1) \<Rightarrow>
        let l = (SimplexLeaf_reset N)\<lparr>level := 0, tape := Some tape', sub := lsub\<rparr>;
            h2 = evalLeaf_sample env N region tape' lsub (evalLeaf_corners N already_solved) h1;
            h3 = snd (Unroller env N (ipow 3 N) lsub already_solved region h2);
            h4 = saveVertexSigns env N tape' region already_solved lsub h3
        in (l, already_solved, p1, h4))"

text \<open>Lines 302-318: the type stored from the flags of the \<open>3 ^ N\<close> subspace vertices.\<close>

definition evalLeaf_type :: "nat \<Rightarrow> nat list \<Rightarrow> ('q, 's) heap \<Rightarrow> interval_state" where
  "evalLeaf_type N lsub h =
     (let all_inside = fold (\<lambda>i b. b \<and> inside (h (lsub ! i))) [0..<ipow 3 N] True;
          all_outside = fold (\<lambda>i b. b \<and> \<not> inside (h (lsub ! i))) [0..<ipow 3 N] True
      in if all_inside then FILLED else if all_outside then EMPTY else AMBIGUOUS)"

text \<open>Lines 200-329.\<close>

definition evalLeaf ::
  "('q, 'p, 'r, 's::{zero,ord}, 'i, 'h) env \<Rightarrow> nat \<Rightarrow> (nat \<Rightarrow> ('h SimplexLeaf \<times> nat) option)
     \<Rightarrow> 's Region \<Rightarrow> 'h \<Rightarrow> 'h SimplexTree \<Rightarrow> pool \<Rightarrow> ('q, 's) heap
     \<Rightarrow> 'h SimplexTree \<times> pool \<times> ('q, 's) heap" where
  "evalLeaf env N check region tape' t p h =
     (case evalLeaf_solve env N check region tape' p h of (l, already_solved, p1, h1) \<Rightarrow>
        let t1 = set_type (evalLeaf_type N (sub l) h1) (set_leaf (Some l) t)
        in if type t1 \<noteq> AMBIGUOUS
           then (case SimplexLeaf_releaseTo N (qef_zero env) l p1 h1 of (p2, h2) \<Rightarrow>
                   (xtree_done (set_leaf None t1), p2, h2))
           else (xtree_done t1, p1, h1))"

section \<open>collectChildren\<close>

text \<open>Lines 538-555, \<^verbatim>\<open>SimplexTree<N>::level()\<close>.\<close>

definition SimplexTree_level :: "'h SimplexTree \<Rightarrow> nat" where
  "SimplexTree_level t =
     (case type t of AMBIGUOUS \<Rightarrow> level (the (leaf t)) | UNKNOWN \<Rightarrow> 0 | FILLED \<Rightarrow> 0 | EMPTY \<Rightarrow> 0)"

text \<open>Lines 389-391: the subspace objects of the tentative leaf.\<close>

definition collect_alloc ::
  "'q \<Rightarrow> nat \<Rightarrow> pool \<Rightarrow> ('q, 's) heap \<Rightarrow> nat list \<times> pool \<times> ('q, 's) heap" where
  "collect_alloc qz N p h =
     fold (\<lambda>i (lsub, p, h). case pool_get qz p h of (a, p', h') \<Rightarrow> (lsub[i := a], p', h'))
       [0..<ipow 3 N] (replicate (ipow 3 N) 0, p, h)"

text \<open>
  Lines 331-502. The result is the returned flag, the node, the pool and the store. The
  condition of line 483 is \<^verbatim>\<open>err < max_err && false\<close>, as in the source.
\<close>

definition collectChildren ::
  "('q, 'p, 'r, 's::{zero,ord}, 'i, 'h) env \<Rightarrow> nat \<Rightarrow> 'h \<Rightarrow> 's \<Rightarrow> 's Region \<Rightarrow> 'h SimplexTree
     \<Rightarrow> pool \<Rightarrow> ('q, 's) heap \<Rightarrow> bool \<times> 'h SimplexTree \<times> pool \<times> ('q, 's) heap" where
  "collectChildren env N tape' max_err region t p h =
     (let t0 = set_pending (pending t - 1) t
      in if pending t \<noteq> 0 then (False, t0, p, h)
      else
        let cs = children t0
        in if list_ex isBranch cs then (True, xtree_done t0, p, h)
        else
          let all_empty = fold (\<lambda>c b. b \<and> type c = EMPTY) cs True;
              all_full = fold (\<lambda>c b. b \<and> type c = FILLED) cs True;
              t1 = set_type (if all_empty then EMPTY else if all_full then FILLED else AMBIGUOUS) t0
          in if type t1 = FILLED \<or> type t1 = EMPTY
             then (case releaseChildren N (qef_zero env) t1 p h of (t2, p2, h2) \<Rightarrow>
                     (True, xtree_done t2, p2, h2))
             else
               (case collect_alloc (qef_zero env) N p h of (psub, p1, h1) \<Rightarrow>
                  let l = (SimplexLeaf_reset N)\<lparr>sub := psub\<rparr>;
                      h2 = collect_qefs (qef_add env) N psub cs h1;
                      already_solved = replicate (ipow 3 N) False
                  in (case Unroller env N (ipow 3 N) psub already_solved region h2 of (err, h3) \<Rightarrow>
                        if err < max_err \<and> False
                        then
                          let l' = l\<lparr>level := fold (\<lambda>b a. max a (SimplexTree_level b)) cs 0 + 1\<rparr>;
                              h4 = saveVertexSigns env N tape' region already_solved psub h3
                          in (case releaseChildren N (qef_zero env) (set_leaf (Some l') t1) p1 h4 of
                                (t2, p2, h5) \<Rightarrow> (True, xtree_done t2, p2, h5))
                        else (True, xtree_done (set_leaf None t1), p1, h3))))"

section \<open>assignIndices\<close>

text \<open>
  Lines 593-600: the assignment for subspace \<open>i\<close> of the leaf whose \<^verbatim>\<open>sub\<close> array is
  \<open>lsub\<close>; the state is the counter \<^verbatim>\<open>index\<close> (a \<^verbatim>\<open>uint64_t\<close>) and the store.
  \<open>getIndex nb h i\<close> stands for \<^verbatim>\<open>neighbors.getIndex(i)\<close>, which reads the indices stored
  in the neighbours' subspaces.
\<close>

definition assign_sub ::
  "('nb \<Rightarrow> ('q, 's) heap \<Rightarrow> nat \<Rightarrow> 64 word) \<Rightarrow> 'nb \<Rightarrow> nat list \<Rightarrow> nat
     \<Rightarrow> 64 word \<times> ('q, 's) heap \<Rightarrow> 64 word \<times> ('q, 's) heap" where
  "assign_sub getIndex nb lsub i = (\<lambda>(counter, h).
     let n = getIndex nb h i; a = lsub ! i
     in if n \<noteq> 0 then (counter, h(a := (h a)\<lparr>index := n\<rparr>))
        else (counter + 1, h(a := (h a)\<lparr>index := counter\<rparr>)))"

text \<open>
  The same assignment, recording in a third component the values given out by
  \<^verbatim>\<open>index++\<close> (line 598), in order. The record is not part of the program state.
\<close>

definition assign_sub_log ::
  "('nb \<Rightarrow> ('q, 's) heap \<Rightarrow> nat \<Rightarrow> 64 word) \<Rightarrow> 'nb \<Rightarrow> nat list \<Rightarrow> nat
     \<Rightarrow> 64 word \<times> ('q, 's) heap \<times> 64 word list \<Rightarrow> 64 word \<times> ('q, 's) heap \<times> 64 word list" where
  "assign_sub_log getIndex nb lsub i = (\<lambda>(counter, h, given).
     let n = getIndex nb h i; a = lsub ! i
     in if n \<noteq> 0 then (counter, h(a := (h a)\<lparr>index := n\<rparr>), given)
        else (counter + 1, h(a := (h a)\<lparr>index := counter\<rparr>), given @ [counter]))"

text \<open>
  Lines 583-602: the depth-first walk. \<open>push nb i cs\<close> stands for
  \<^verbatim>\<open>neighbors.push(i, this->children)\<close>; \<open>body nb lsub i\<close> is the assignment for one
  subspace.
\<close>

function assign_walk ::
  "('nb \<Rightarrow> nat \<Rightarrow> 'h SimplexTree list \<Rightarrow> 'nb) \<Rightarrow> ('nb \<Rightarrow> nat list \<Rightarrow> nat \<Rightarrow> 'st \<Rightarrow> 'st)
     \<Rightarrow> nat \<Rightarrow> 'h SimplexTree \<Rightarrow> 'nb \<Rightarrow> 'st \<Rightarrow> 'st" where
  "assign_walk push body N t nb st =
     (if isBranch t
      then fold (\<lambda>i st. assign_walk push body N (children t ! i) (push nb i (children t)) st)
             [0..<length (children t)] st
      else (case leaf t of
              Some l \<Rightarrow> fold (body nb (sub l)) [0..<ipow 3 N] st
            | None \<Rightarrow> st))"
  by pat_completeness auto
termination
proof (relation "measure (\<lambda>(push, body, N, t, nb, st). size t)")
  show "wf (measure (\<lambda>(push, body, N, t, nb, st). size t))" by simp
next
  fix push :: "'nb \<Rightarrow> nat \<Rightarrow> 'h SimplexTree list \<Rightarrow> 'nb"
    and body :: "'nb \<Rightarrow> nat list \<Rightarrow> nat \<Rightarrow> 'st \<Rightarrow> 'st"
    and N :: nat and t :: "'h SimplexTree" and nb :: 'nb and st st' :: 'st and i :: nat
  assume "i \<in> set [0..<length (children t)]"
  then have "children t ! i \<in> set (children t)" by simp
  then have "size (children t ! i) < size t"
    by (cases t) (auto simp: less_Suc_eq_le dest: size_list_estimation'[where f = size, OF _ order_refl])
  then show "((push, body, N, children t ! i, push nb i (children t), st'), push, body, N, t, nb, st)
      \<in> measure (\<lambda>(push, body, N, t, nb, st). size t)"
    by simp
qed

declare assign_walk.simps [simp del]

text \<open>Lines 575-581: the counter starts at 1; \<open>nb0\<close> is the default-constructed \<^verbatim>\<open>SimplexNeighbors\<close>.\<close>

definition assignIndices ::
  "('nb \<Rightarrow> nat \<Rightarrow> 'h SimplexTree list \<Rightarrow> 'nb) \<Rightarrow> ('nb \<Rightarrow> ('q, 's) heap \<Rightarrow> nat \<Rightarrow> 64 word)
     \<Rightarrow> 'nb \<Rightarrow> nat \<Rightarrow> 'h SimplexTree \<Rightarrow> ('q, 's) heap \<Rightarrow> 64 word \<times> ('q, 's) heap" where
  "assignIndices push getIndex nb0 N t h =
     assign_walk push (assign_sub getIndex) N t nb0 (1, h)"

definition assignIndices_log ::
  "('nb \<Rightarrow> nat \<Rightarrow> 'h SimplexTree list \<Rightarrow> 'nb) \<Rightarrow> ('nb \<Rightarrow> ('q, 's) heap \<Rightarrow> nat \<Rightarrow> 64 word)
     \<Rightarrow> 'nb \<Rightarrow> nat \<Rightarrow> 'h SimplexTree \<Rightarrow> ('q, 's) heap
     \<Rightarrow> 64 word \<times> ('q, 's) heap \<times> 64 word list" where
  "assignIndices_log push getIndex nb0 N t h =
     assign_walk push (assign_sub_log getIndex) N t nb0 (1, h, [])"

text \<open>The leaves (nodes that are not branches and hold a \<^verbatim>\<open>SimplexLeaf\<close>) of a tree.\<close>

fun leaves :: "'h SimplexTree \<Rightarrow> 'h SimplexLeaf list" where
  "leaves (SimplexTree ty lf cs pe dn) =
     (if cs \<noteq> [] then concat (map leaves cs)
      else (case lf of Some l \<Rightarrow> [l] | None \<Rightarrow> []))"

text \<open>
  The assignments that the walk performs, in order: the neighbours passed to the leaf,
  its \<^verbatim>\<open>sub\<close> array and the subspace.
\<close>

definition assign_visits ::
  "('nb \<Rightarrow> nat \<Rightarrow> 'h SimplexTree list \<Rightarrow> 'nb) \<Rightarrow> nat \<Rightarrow> 'h SimplexTree \<Rightarrow> 'nb
     \<Rightarrow> ('nb \<times> nat list \<times> nat) list" where
  "assign_visits push N t nb =
     assign_walk push (\<lambda>nb lsub i visits. visits @ [(nb, lsub, i)]) N t nb []"

text \<open>
  The subspace objects that the walk meets, in order: for every leaf, the pointers
  \<^verbatim>\<open>leaf->sub[i]\<close> for \<open>i\<close> from \<open>0\<close> to \<open>3 ^ N - 1\<close>. An object that two leaves share
  occurs once for each of them.
\<close>

definition subspace_objects :: "nat \<Rightarrow> 'h SimplexTree \<Rightarrow> nat list" where
  "subspace_objects N t = concat (map (\<lambda>l. map (\<lambda>i. sub l ! i) [0..<ipow 3 N]) (leaves t))"

text \<open>
  Modelled from the spec: \<^verbatim>\<open>SimplexNeighbors\<close> (section 4.7), as far as \<^verbatim>\<open>assignIndices\<close>
  uses it. The neighbours of a cell are kept with the cell itself; \<^verbatim>\<open>push\<close> gives a child
  its siblings and the neighbours of its parent; \<^verbatim>\<open>getIndex\<close> "returns the index already
  assigned to a shared subspace, if any": a subspace is shared when the leaf of a
  neighbour holds the same subspace object (section 8, sharing consistency), and the
  index is the one stored in that object, \<open>0\<close> when none is assigned or none is shared.
\<close>

type_synonym 'h neighbors = "'h SimplexTree option \<times> 'h SimplexTree list"

definition neighbors_empty :: "'h neighbors" where
  "neighbors_empty = (None, [])"

definition neighbors_push :: "'h neighbors \<Rightarrow> nat \<Rightarrow> 'h SimplexTree list \<Rightarrow> 'h neighbors" where
  "neighbors_push nb i cs =
     (Some (cs ! i), map (\<lambda>k. cs ! k) (filter (\<lambda>k. k \<noteq> i) [0..<length cs]) @ snd nb)"

definition neighbors_getIndex :: "'h neighbors \<Rightarrow> ('q, 's) heap \<Rightarrow> nat \<Rightarrow> 64 word" where
  "neighbors_getIndex nb h i =
     (case fst nb of
        None \<Rightarrow> 0
      | Some t \<Rightarrow>
          (case leaf t of
             None \<Rightarrow> 0
           | Some l \<Rightarrow>
               let a = sub l ! i
               in if list_ex (\<lambda>n. case leaf n of None \<Rightarrow> False | Some m \<Rightarrow> a \<in> set (sub m)) (snd nb)
                  then index (h a) else 0))"


section \<open>Example inputs\<close>

text \<open>
  A quadtree cell (\<open>N = 2\<close>) with four children: two AMBIGUOUS leaves side by side along
  the first axis and two EMPTY nodes. The leaves share the three subspace objects of
  their common edge (addresses 3, 6, 9): subspaces 2, 5, 8 of the first leaf are
  subspaces 0, 3, 6 of the second.
\<close>

definition example_leaf_A :: "unit SimplexLeaf" where
  "example_leaf_A = \<lparr>level = 0, tape = Some (), sub = [1, 2, 3, 4, 5, 6, 7, 8, 9]\<rparr>"

definition example_leaf_B :: "unit SimplexLeaf" where
  "example_leaf_B = \<lparr>level = 0, tape = Some (), sub = [3, 10, 11, 6, 12, 13, 9, 14, 15]\<rparr>"

definition example_node_A :: "unit SimplexTree" where
  "example_node_A = SimplexTree AMBIGUOUS (Some example_leaf_A) [] 0 True"

definition example_node_B :: "unit SimplexTree" where
  "example_node_B = SimplexTree AMBIGUOUS (Some example_leaf_B) [] 0 True"

definition example_empty :: "unit SimplexTree" where
  "example_empty = SimplexTree EMPTY None [] 0 True"

definition example_children :: "unit SimplexTree list" where
  "example_children = [example_node_A, example_node_B, example_empty, example_empty]"

definition example_root :: "unit SimplexTree" where
  "example_root = SimplexTree AMBIGUOUS None example_children 0 False"

text \<open>
  A store in which the QEF of the object at address \<open>a\<close> is the symbolic sum \<open>[a]\<close> and
  its vertex is at \<open>x = a - 5\<close>.
\<close>

definition example_heap :: "(nat list, int) heap" where
  "example_heap = (\<lambda>a. \<lparr>inside = False, index = 0, vert = [int a - 5, 0], qef = [a], refcount = 0\<rparr>)"

text \<open>
  Collaborators for the function \<open>f(x, y) = x\<close> on integer coordinates: the interval
  evaluator returns the range of the first coordinate and calls itself unsafe below
  -1000; a QEF is the list of the tags of its samples, a projection keeps the list, and
  the bounded solve returns the lower corner of the reduced region.
\<close>

definition example_env ::
  "(nat list, nat list, int list, int, int \<times> int, unit) env" where
  "example_env =
     \<lparr>interval_evalAndPush = (\<lambda>lo up t. ((hd lo, hd up), t)),
      interval_isSafe = (\<lambda>lo up t. - 1000 < hd lo),
      Interval_state = (\<lambda>(l, u). if u < 0 then FILLED else if 0 \<le> l then EMPTY else AMBIGUOUS),
      array_values = (\<lambda>p t. hd p),
      array_derivs = (\<lambda>p t. ([1, 0, 0], hd p)),
      array_getAmbiguous = (\<lambda>p t. False),
      feature_features = (\<lambda>p t. [[1, 0, 0]]),
      feature_isInside = (\<lambda>p t. True),
      to_float = (\<lambda>x. x),
      to_double = (\<lambda>x. x),
      isFinite = (\<lambda>x. True),
      qef_zero = [],
      qef_insert = (\<lambda>q p n v. q @ [0]),
      qef_add = (@),
      qef_sub = (\<lambda>F q. q),
      sub_zero = (\<lambda>d. []),
      sub_add = (@),
      solveBounded = (\<lambda>q r. (r, int (length q))),
      region_subspace = (\<lambda>F r. map (\<lambda>d. lower r ! d) (filter (bit F) [0..<length (lower r)]))\<rparr>"

definition example_region :: "int Region" where
  "example_region = \<lparr>lower = [- 1, 0], upper = [1, 1], perp = [0]\<rparr>"

definition example_region_inside :: "int Region" where
  "example_region_inside = \<lparr>lower = [- 3, 0], upper = [- 2, 1], perp = [0]\<rparr>"

definition example_region_unsafe :: "int Region" where
  "example_region_unsafe = \<lparr>lower = [- 2000, 0], upper = [- 2, 1], perp = [0]\<rparr>"

definition example_unknown :: "unit SimplexTree" where
  "example_unknown = SimplexTree UNKNOWN None [] 3 False"

definition example_pool :: pool where
  "example_pool = \<lparr>free = [], fresh = 20\<rparr>"

definition example_check :: "nat \<Rightarrow> (unit SimplexLeaf \<times> nat) option" where
  "example_check = (\<lambda>i. None)"

definition example_root_empty :: "unit SimplexTree" where
  "example_root_empty =
     SimplexTree UNKNOWN None [example_empty, example_empty, example_empty, example_empty] 0 False"

text \<open>Which of the example children is AMBIGUOUS, and a parent leaf's subspaces for them.\<close>

definition example_ambiguous :: "nat \<Rightarrow> bool" where
  "example_ambiguous i = (type (example_children ! i) = AMBIGUOUS)"

definition example_parent_sub :: "nat list" where
  "example_parent_sub = [21, 22, 23, 24, 25, 26, 27, 28, 29]"

section \<open>Properties of the subspace encoding\<close>

lemma and_push_bit_test: "(x::nat) AND push_bit d 1 \<noteq> 0 \<longleftrightarrow> bit x d"
  by (simp add: bit_iff_and_push_bit_not_eq_0)

lemma bit_floating: "bit (floating j) d \<longleftrightarrow> (j div 3 ^ d) mod 3 = 1"
proof (induction j arbitrary: d rule: floating.induct)
  case (1 j)
  show ?case
  proof (cases "j = 0")
    case True then show ?thesis by (simp add: floating.simps)
  next
    case False
    show ?thesis
    proof (cases d)
      case 0
      then show ?thesis using False by (subst floating.simps) (auto simp: bit_0)
    next
      case (Suc d')
      have "bit (floating j) d \<longleftrightarrow> bit (floating (j div 3)) d'"
        using False Suc by (subst floating.simps) (auto simp: bit_Suc)
      also have "\<dots> \<longleftrightarrow> (j div 3 div 3 ^ d') mod 3 = 1" using 1[OF False] by simp
      finally show ?thesis using Suc by (simp add: div_mult2_eq)
    qed
  qed
qed

lemma bit_pos: "bit (pos j) d \<longleftrightarrow> (j div 3 ^ d) mod 3 = 2"
proof (induction j arbitrary: d rule: pos.induct)
  case (1 j)
  show ?case
  proof (cases "j = 0")
    case True then show ?thesis by (simp add: pos.simps)
  next
    case False
    show ?thesis
    proof (cases d)
      case 0
      then show ?thesis using False by (subst pos.simps) (auto simp: bit_0)
    next
      case (Suc d')
      have "bit (pos j) d \<longleftrightarrow> bit (pos (j div 3)) d'"
        using False Suc by (subst pos.simps) (auto simp: bit_Suc)
      also have "\<dots> \<longleftrightarrow> (j div 3 div 3 ^ d') mod 3 = 2" using 1[OF False] by simp
      finally show ?thesis using Suc by (simp add: div_mult2_eq)
    qed
  qed
qed

lemma bit_fixed: "bit (fixed N j) d \<longleftrightarrow> d < N \<and> \<not> bit (floating j) d"
  by (auto simp: fixed_def bit_simps)

lemma floating_less: "j < 3 ^ N \<Longrightarrow> floating j < 2 ^ N"
proof (induction N arbitrary: j)
  case 0
  then show ?case by (simp add: floating.simps)
next
  case (Suc N)
  have "j div 3 < 3 ^ N" using Suc.prems by auto
  then have "floating (j div 3) < 2 ^ N" by (rule Suc.IH)
  then show ?case by (subst floating.simps) auto
qed

lemma pos_less: "j < 3 ^ N \<Longrightarrow> pos j < 2 ^ N"
proof (induction N arbitrary: j)
  case 0
  then show ?case by (simp add: pos.simps)
next
  case (Suc N)
  have "j div 3 < 3 ^ N" using Suc.prems by auto
  then have "pos (j div 3) < 2 ^ N" by (rule Suc.IH)
  then show ?case by (subst pos.simps) auto
qed

lemma fold_valid:
  "fold (\<lambda>d valid. if P d then valid \<and> Q d else valid) [0..<N] v
     = (v \<and> (\<forall>d<N. P d \<longrightarrow> Q d))"
  by (induction N arbitrary: v) (auto simp: less_Suc_eq)

lemma collect_valid_iff:
  "collect_valid N i j \<longleftrightarrow>
     (\<forall>d<N. bit (fixed N j) d \<longrightarrow> bit (pos j) d \<or> bit i d)"
  unfolding collect_valid_def Let_def and_push_bit_test fold_valid by simp

lemma child_bit_N: "i < 2 ^ N \<Longrightarrow> (i::nat) AND push_bit N 1 = 0"
  by (metis and_push_bit_test bit_take_bit_iff less_irrefl take_bit_nat_eq_self)

lemma collect_masks_fold:
  assumes "n \<le> 8"
  shows "fold (\<lambda>d (floating_out, pos_out).
            if bit fl d \<or> bit ps d
            then (take_bit 8 (floating_out OR push_bit d 1), pos_out)
            else (floating_out, take_bit 8 (pos_out OR (ps AND push_bit d 1))))
          [0..<n] (0, 0) = (take_bit n (fl OR ps), 0::nat)"
  using assms
proof (induction n)
  case 0
  then show ?case by simp
next
  case (Suc n)
  have a: "take_bit 8 (take_bit n (fl OR ps) OR push_bit n 1) = take_bit (Suc n) (fl OR ps)"
    if "bit fl n \<or> bit ps n"
    using that Suc.prems by (intro bit_eqI) (auto simp: bit_simps less_Suc_eq)
  have b: "take_bit n (fl OR ps) = take_bit (Suc n) (fl OR ps)"
    if "\<not> (bit fl n \<or> bit ps n)"
    using that by (intro bit_eqI) (auto simp: bit_simps less_Suc_eq)
  have c: "ps AND push_bit n 1 = 0" if "\<not> (bit fl n \<or> bit ps n)"
    using that and_push_bit_test[of ps n] by auto
  show ?case using Suc a b c by auto
qed

lemma collect_masks_eq:
  assumes "i < 2 ^ N" "N \<le> 8"
  shows "collect_masks N i j = (take_bit N (floating j OR pos j), 0)"
proof -
  have h: "\<And>d. (floating j AND push_bit d 1 \<noteq> 0 \<or> pos j AND push_bit d 1 \<noteq> i AND push_bit N 1)
      = (bit (floating j) d \<or> bit (pos j) d)"
    unfolding child_bit_N[OF assms(1)] and_push_bit_test by (rule refl)
  show ?thesis
    unfolding collect_masks_def Let_def h by (rule collect_masks_fold[OF assms(2)])
qed

lemma fromPosAndFloating_less:
  "p < 2 ^ N \<Longrightarrow> f < 2 ^ N \<Longrightarrow> fromPosAndFloating p f < 3 ^ N"
proof (induction N arbitrary: p f)
  case 0
  then show ?case by (simp add: fromPosAndFloating.simps)
next
  case (Suc N)
  have "p div 2 < 2 ^ N" "f div 2 < 2 ^ N" using Suc.prems by auto
  then have "fromPosAndFloating (p div 2) (f div 2) < 3 ^ N" by (rule Suc.IH)
  then show ?case by (subst fromPosAndFloating.simps) auto
qed

lemma fold_filter_skip:
  "fold (\<lambda>j st. if \<not> P j then st else f j st) xs st = fold f (filter P xs) st"
  by (induction xs arbitrary: st) auto

lemma fold_concat_map:
  "fold (\<lambda>i st. if \<not> A i then st else fold (g i) (ys i) st) xs st
     = fold (\<lambda>(i, y). g i y) (concat (map (\<lambda>i. if A i then map (Pair i) (ys i) else []) xs)) st"
proof (induction xs arbitrary: st)
  case Nil
  then show ?case by simp
next
  case (Cons x xs)
  have "fold (\<lambda>(i, y). g i y) (map (Pair x) zs) s = fold (g x) zs s" for zs s
    by (induction zs arbitrary: s) auto
  then show ?case using Cons by simp
qed

lemma collect_loop_list:
  "collect_loop N ambiguous body st = fold (\<lambda>(i, j, t). body i j t) (collect_list N ambiguous) st"
proof -
  have inner: "fold (\<lambda>j st. if \<not> collect_valid N i j then st else body i j (collect_target N i j) st) xs s
     = fold (\<lambda>(i, j, t). body i j t) (map (\<lambda>j. (i, j, collect_target N i j)) (filter (collect_valid N i) xs)) s"
    for i xs s
    by (induction xs arbitrary: s) auto
  have outer: "fold (\<lambda>i st. if \<not> ambiguous i then st else fold (\<lambda>(i, j, t). body i j t) (zs i) st) xs s
     = fold (\<lambda>(i, j, t). body i j t) (concat (map (\<lambda>i. if ambiguous i then zs i else []) xs)) s"
    for zs xs s
    by (induction xs arbitrary: s) auto
  show ?thesis
    unfolding collect_loop_def collect_list_def inner outer ..
qed

lemma fold_snoc_log: "fold (\<lambda>x ops. ops @ [f x]) xs acc = acc @ map f xs"
  by (induction xs arbitrary: acc) auto

lemma collect_ops_list: "collect_ops N ambiguous = collect_list N ambiguous"
proof -
  have e: "(\<lambda>i j target ops. ops @ [(i, j, target)]) = (\<lambda>i j target ops. ops @ [(i, j, target)])" ..
  have "(\<lambda>(i, j, t) ops. ops @ [(i, j, t)]) = (\<lambda>x ops. ops @ [x :: nat \<times> nat \<times> nat])"
    by (intro ext) (simp add: case_prod_unfold)
  then have "fold (\<lambda>(i, j, t) ops. ops @ [(i, j, t)]) xs [] = xs" for xs :: "(nat \<times> nat \<times> nat) list"
    using fold_snoc_log[of "\<lambda>x. x" xs "[]"] by simp
  then show ?thesis
    unfolding collect_ops_def collect_loop_list .
qed

lemma collect_ops_iff:
  "(i, j, t) \<in> set (collect_ops N ambiguous) \<longleftrightarrow>
     i < 2 ^ N \<and> ambiguous i \<and> j < 3 ^ N \<and> collect_valid N i j \<and> t = collect_target N i j"
  unfolding collect_ops_list collect_list_def by (auto simp: ipow_def)

lemma collect_target_less:
  assumes "i < 2 ^ N" "N \<le> 8"
  shows "collect_target N i j < 3 ^ N"
proof -
  have "take_bit N (floating j OR pos j) < 2 ^ N" by (rule take_bit_nat_less_exp)
  then have "fromPosAndFloating 0 (take_bit N (floating j OR pos j)) < 3 ^ N"
    by (intro fromPosAndFloating_less) simp_all
  then show ?thesis
    unfolding collect_target_def collect_masks_eq[OF assms] by simp
qed

text \<open>
  Claim C1 (the code departs from it). The claim and the comment of lines 455-457 say
  that a fixed axis of the child subspace stays fixed exactly when the child's corner
  agrees with the subspace on that axis. Line 462 compares with \<^verbatim>\<open>child.i & (1 << N)\<close>,
  which is \<open>0\<close> for every child, so the code makes a fixed axis floating exactly when
  the subspace is HIGH on it, whatever the child. For \<open>N = 2\<close>, child corner 3
  (HIGH, HIGH): subspace 8 (both axes fixed HIGH, accepted) agrees with the corner on
  both axes, so it should map to the parent subspace with both axes fixed HIGH
  (index 8); the code maps it to the subspace with both axes floating (index 4).
  Subspace 0 (both axes fixed LOW, accepted) disagrees with the corner on both axes,
  so it should map to index 4; the code keeps both axes fixed LOW (index 0).
\<close>

theorem collect_target_slip:
  "floating 8 = 0 \<and> pos 8 = 3 \<and> collect_valid 2 3 8
   \<and> collect_masks 2 3 8 = (3, 0) \<and> collect_target 2 3 8 = 4
   \<and> floating 4 = 3 \<and> fromPosAndFloating 3 0 = 8
   \<and> floating 0 = 0 \<and> pos 0 = 0 \<and> collect_valid 2 3 0
   \<and> collect_masks 2 3 0 = (0, 0) \<and> collect_target 2 3 0 = 0"
  by code_simp

theorem collect_target_slip_witness:
  "collect_target 2 3 8 \<noteq> fromPosAndFloating 3 0 \<and> collect_target 2 3 0 \<noteq> 4"
  using collect_target_slip by simp

lemma upt_0_9: "[0..<9] = [0, 1, 2, 3, 4, 5, 6, 7, 8]" by code_simp

lemma upt_0_4: "[0..<4] = [0, 1, 2, 3]" by code_simp

lemma all_less_4: "(\<forall>d<4::nat. P d) \<longleftrightarrow> P 0 \<and> P 1 \<and> P 2 \<and> P 3"
proof -
  have "(\<forall>d<4::nat. P d) \<longleftrightarrow> (\<forall>d\<in>set [0..<4]. P d)" by auto
  then show ?thesis unfolding upt_0_4 by simp
qed

lemma all_less_9:
  "(\<forall>i<9::nat. P i) \<longleftrightarrow> P 0 \<and> P 1 \<and> P 2 \<and> P 3 \<and> P 4 \<and> P 5 \<and> P 6 \<and> P 7 \<and> P 8"
proof -
  have "(\<forall>d<9::nat. P d) \<longleftrightarrow> (\<forall>d\<in>set [0..<9]. P d)" by auto
  then show ?thesis unfolding upt_0_9 by simp
qed

lemma add_qef_fold:
  assumes "distinct psub"
      and "\<forall>(i, j, t) \<in> set ops. t < length psub \<and> sub (the (leaf (cs ! i))) ! j \<notin> set psub"
  shows "(\<forall>a. a \<notin> set psub \<longrightarrow> fold (\<lambda>(i, j, t). add_qef add psub cs i j t) ops h a = h a)
       \<and> (\<forall>t<length psub. fold (\<lambda>(i, j, t). add_qef add psub cs i j t) ops h (psub ! t)
            = (h (psub ! t))\<lparr>qef := foldl add (qef (h (psub ! t)))
                 (map (\<lambda>(i, j, t). qef (h (sub (the (leaf (cs ! i))) ! j)))
                    (filter (\<lambda>(i, j, t'). t' = t) ops))\<rparr>)"
  using assms(2)
proof (induction ops arbitrary: h)
  case Nil
  then show ?case by simp
next
  case (Cons op ops)
  obtain i j t0 where op: "op = (i, j, t0)" by (cases op)
  define src where "src = sub (the (leaf (cs ! i))) ! j"
  define h1 where "h1 = add_qef add psub cs i j t0 h"
  have t0: "t0 < length psub" and src: "src \<notin> set psub"
    using Cons.prems op by (auto simp: src_def)
  have h1: "h1 = h(psub ! t0 := (h (psub ! t0))\<lparr>qef := add (qef (h (psub ! t0))) (qef (h src))\<rparr>)"
    by (simp add: h1_def add_qef_def src_def Let_def)
  have out: "h1 a = h a" if "a \<notin> set psub" for a
    using that t0 by (auto simp: h1)
  have rest: "\<forall>(i, j, t) \<in> set ops. t < length psub \<and> sub (the (leaf (cs ! i))) ! j \<notin> set psub"
    using Cons.prems by simp
  note IH = Cons.IH[OF rest, of h1]
  have srcs: "map (\<lambda>(i, j, t). qef (h1 (sub (the (leaf (cs ! i))) ! j))) (filter P ops)
            = map (\<lambda>(i, j, t). qef (h (sub (the (leaf (cs ! i))) ! j))) (filter P ops)" for P
    using rest by (intro map_cong) (auto simp: out)
  have f: "fold (\<lambda>(i, j, t). add_qef add psub cs i j t) (op # ops) h
         = fold (\<lambda>(i, j, t). add_qef add psub cs i j t) ops h1"
    by (simp add: op h1_def)
  show ?case
  proof (intro conjI allI impI)
    fix a assume "a \<notin> set psub"
    then show "fold (\<lambda>(i, j, t). add_qef add psub cs i j t) (op # ops) h a = h a"
      unfolding f using IH out by simp
  next
    fix t assume t: "t < length psub"
    show "fold (\<lambda>(i, j, t). add_qef add psub cs i j t) (op # ops) h (psub ! t)
            = (h (psub ! t))\<lparr>qef := foldl add (qef (h (psub ! t)))
                 (map (\<lambda>(i, j, t). qef (h (sub (the (leaf (cs ! i))) ! j)))
                    (filter (\<lambda>(i, j, t'). t' = t) (op # ops)))\<rparr>"
    proof (cases "t = t0")
      case True
      have "h1 (psub ! t) = (h (psub ! t))\<lparr>qef := add (qef (h (psub ! t))) (qef (h src))\<rparr>"
        by (simp add: h1 True)
      then show ?thesis
        unfolding f using IH t by (simp add: srcs op True src_def)
    next
      case False
      then have "psub ! t \<noteq> psub ! t0"
        using assms(1) t t0 by (simp add: nth_eq_iff_index_eq)
      then have "h1 (psub ! t) = h (psub ! t)" by (simp add: h1)
      then show ?thesis
        unfolding f using IH t False by (simp add: srcs op)
    qed
  qed
qed

lemma distinct_concat_map:
  assumes "distinct xs" and "\<forall>x\<in>set xs. distinct (f x)"
      and "\<forall>x\<in>set xs. \<forall>y\<in>set xs. x \<noteq> y \<longrightarrow> set (f x) \<inter> set (f y) = {}"
  shows "distinct (concat (map f xs))"
  using assms by (induction xs) auto

lemma collect_list_distinct: "distinct (collect_list N ambiguous)"
  unfolding collect_list_def
  by (rule distinct_concat_map) (auto simp: distinct_map inj_on_def)

lemma example_ops:
  "collect_ops 2 (\<lambda>i. type (example_children ! i) = AMBIGUOUS)
     = [(0, 4, 4), (0, 5, 4), (0, 7, 4), (0, 8, 4), (1, 3, 3), (1, 4, 4),
        (1, 5, 4), (1, 6, 3), (1, 7, 4), (1, 8, 4)]"
  by code_simp

text \<open>
  Claim C5, as amended: the accumulation adds to each parent subspace \<open>t\<close> the QEFs of
  the accepted pairs (child, child subspace) that map to \<open>t\<close>, in loop order, each pair
  once; and for every child corner \<open>i\<close> and every subspace \<open>j\<close> of that child, the pair
  is accepted, so that the QEF of \<open>j\<close> is added to a parent subspace, if and only if the
  child is AMBIGUOUS and, on every axis fixed in \<open>j\<close>, \<open>j\<close> is HIGH or the child corner
  is HIGH. The parent's subspace objects are distinct and none of them is a subspace
  object of a child.
\<close>

theorem collect_adds_valid_ambiguous:
  assumes "N \<le> 8" and "length psub = 3 ^ N" and "distinct psub"
      and "\<forall>i<2 ^ N. type (cs ! i) = AMBIGUOUS \<longrightarrow>
             (\<forall>j<3 ^ N. sub (the (leaf (cs ! i))) ! j \<notin> set psub)"
  shows "(\<forall>t<3 ^ N. collect_qefs add N psub cs h (psub ! t)
            = (h (psub ! t))\<lparr>qef := foldl add (qef (h (psub ! t)))
                 (map (\<lambda>(i, j, t). qef (h (sub (the (leaf (cs ! i))) ! j)))
                    (filter (\<lambda>(i, j, t'). t' = t)
                       (collect_ops N (\<lambda>i. type (cs ! i) = AMBIGUOUS))))\<rparr>)
       \<and> distinct (collect_ops N (\<lambda>i. type (cs ! i) = AMBIGUOUS))
       \<and> (\<forall>i<2 ^ N. \<forall>j<3 ^ N.
            (\<exists>t<3 ^ N. (i, j, t) \<in> set (collect_ops N (\<lambda>i. type (cs ! i) = AMBIGUOUS)))
            \<longleftrightarrow> type (cs ! i) = AMBIGUOUS
                \<and> (\<forall>d<N. bit (fixed N j) d \<longrightarrow> bit (pos j) d \<or> bit i d))"
proof -
  let ?ops = "collect_ops N (\<lambda>i. type (cs ! i) = AMBIGUOUS)"
  have ok: "\<forall>(i, j, t) \<in> set ?ops. t < length psub \<and> sub (the (leaf (cs ! i))) ! j \<notin> set psub"
    using assms(1,2,4) collect_target_less[of _ N] by (auto simp: collect_ops_iff)
  have eq: "collect_qefs add N psub cs h = fold (\<lambda>(i, j, t). add_qef add psub cs i j t) ?ops h"
    unfolding collect_qefs_def collect_loop_list collect_ops_list ..
  have a: "\<forall>t<3 ^ N. collect_qefs add N psub cs h (psub ! t)
            = (h (psub ! t))\<lparr>qef := foldl add (qef (h (psub ! t)))
                 (map (\<lambda>(i, j, t). qef (h (sub (the (leaf (cs ! i))) ! j)))
                    (filter (\<lambda>(i, j, t'). t' = t) ?ops))\<rparr>"
    using add_qef_fold[OF assms(3) ok, of add h] assms(2) unfolding eq by simp
  have b: "distinct ?ops"
    unfolding collect_ops_list by (rule collect_list_distinct)
  have c: "\<forall>i<2 ^ N. \<forall>j<3 ^ N.
            (\<exists>t<3 ^ N. (i, j, t) \<in> set ?ops)
            \<longleftrightarrow> type (cs ! i) = AMBIGUOUS
                \<and> (\<forall>d<N. bit (fixed N j) d \<longrightarrow> bit (pos j) d \<or> bit i d)"
    using assms(1) collect_target_less[of _ N]
    by (auto simp: collect_ops_iff collect_valid_iff)
  from a b c show ?thesis by blast
qed

theorem collect_adds_valid_ambiguous_witness:
  "qef (collect_qefs (@) 2 example_parent_sub example_children example_heap 25)
     = [25, 5, 6, 8, 9, 12, 13, 14, 15]
   \<and> qef (collect_qefs (@) 2 example_parent_sub example_children example_heap 24) = [24, 6, 9]
   \<and> qef (collect_qefs (@) 2 example_parent_sub example_children example_heap 21) = [21]"
proof -
  have len: "length example_parent_sub = 3 ^ 2" and dist: "distinct example_parent_sub"
    by (simp_all add: example_parent_sub_def)
  have apart: "\<forall>i<2 ^ 2. type (example_children ! i) = AMBIGUOUS \<longrightarrow>
      (\<forall>j<3 ^ 2. sub (the (leaf (example_children ! i))) ! j \<notin> set example_parent_sub)"
    by (simp add: all_less_4 all_less_9 example_children_def example_node_A_def
        example_node_B_def example_empty_def example_leaf_A_def example_leaf_B_def
        example_parent_sub_def)
  have main: "collect_qefs (@) 2 example_parent_sub example_children example_heap
            (example_parent_sub ! t)
          = (example_heap (example_parent_sub ! t))\<lparr>qef := foldl (@) (qef (example_heap (example_parent_sub ! t)))
               (map (\<lambda>(i, j, t). qef (example_heap (sub (the (leaf (example_children ! i))) ! j)))
                  (filter (\<lambda>(i, j, t'). t' = t)
                     (collect_ops 2 (\<lambda>i. type (example_children ! i) = AMBIGUOUS))))\<rparr>"
    if "t < 9" for t
    using collect_adds_valid_ambiguous[where N = 2 and psub = example_parent_sub
        and cs = example_children and h = example_heap and add = "(@)", OF _ len dist apart] that
    by simp
  have srcs: "sub (the (leaf (example_children ! 0))) = [1, 2, 3, 4, 5, 6, 7, 8, 9]"
    "sub (the (leaf (example_children ! Suc 0))) = [3, 10, 11, 6, 12, 13, 9, 14, 15]"
    by (simp_all add: example_children_def example_node_A_def example_node_B_def
        example_leaf_A_def example_leaf_B_def)
  have dst: "example_parent_sub ! 4 = 25" "example_parent_sub ! 3 = 24" "example_parent_sub ! 0 = 21"
    by (simp_all add: example_parent_sub_def)
  show ?thesis
    using main[of 4] main[of 3] main[of 0]
    unfolding example_ops dst
    by (simp add: srcs example_heap_def)
qed

text \<open>
  Claim C5 as stated fails for a child that is not AMBIGUOUS: the claim speaks of
  every child corner. Child 2 of the example cell is EMPTY. Its subspace 8 has both
  axes fixed HIGH, so the rule of the claim asks for its QEF to be added to a parent
  subspace, and the validity test of lines 436-449 accepts it; but the loop skips the
  child at line 425 and nothing of child 2 is added. With four EMPTY children the
  accumulation leaves the store as it was.
\<close>

theorem collect_valid_not_added:
  "fixed 2 8 = 3 \<and> pos 8 = 3 \<and> collect_valid 2 2 8
   \<and> type (example_children ! 2) = EMPTY
   \<and> 2 \<notin> fst ` set (collect_ops 2 example_ambiguous)
   \<and> collect_qefs (@) 2 example_parent_sub
        [example_empty, example_empty, example_empty, example_empty] example_heap = example_heap"
proof -
  have a: "fixed 2 8 = 3 \<and> pos 8 = 3 \<and> collect_valid 2 2 8"
    by code_simp
  have b: "type (example_children ! 2) = EMPTY"
    by (simp add: example_children_def example_empty_def)
  have amb: "example_ambiguous = (\<lambda>i. type (example_children ! i) = AMBIGUOUS)"
    by (simp add: example_ambiguous_def fun_eq_iff)
  have c: "2 \<notin> fst ` set (collect_ops 2 example_ambiguous)"
    unfolding amb example_ops by simp
  have d: "collect_qefs (@) 2 example_parent_sub
        [example_empty, example_empty, example_empty, example_empty] example_heap = example_heap"
    by (simp add: collect_qefs_def collect_loop_def ipow_def example_empty_def upt_0_4)
  from a b c d show ?thesis by simp
qed

text \<open>
  Claim C10: the loop nest of \<^verbatim>\<open>collectChildren\<close> is the sequence of accumulations
  \<open>collect_ops\<close>, and every accumulation in it comes from a child whose type is
  AMBIGUOUS: a child that is EMPTY or FILLED contributes to no parent subspace.
\<close>

theorem collect_skips_unambiguous:
  "collect_qefs add N psub cs h
     = fold (\<lambda>(i, j, target). add_qef add psub cs i j target)
         (collect_ops N (\<lambda>i. type (cs ! i) = AMBIGUOUS)) h
   \<and> (\<forall>(i, j, target) \<in> set (collect_ops N (\<lambda>i. type (cs ! i) = AMBIGUOUS)).
         type (cs ! i) = AMBIGUOUS)"
  unfolding collect_qefs_def collect_loop_list collect_ops_list
  by (auto simp: collect_list_def)

theorem collect_skips_unambiguous_witness:
  "fst ` set (collect_ops 2 (\<lambda>i. type (example_children ! i) = AMBIGUOUS)) \<subseteq> {0, 1}"
proof -
  have h: "i = 0 \<or> i = 1" if "type (example_children ! i) = AMBIGUOUS" "i < 4" for i
    using that
    by (auto simp: example_children_def example_empty_def less_Suc_eq numeral_eq_Suc)
  have all: "\<forall>(i, j, target) \<in> set (collect_ops 2 (\<lambda>i. type (example_children ! i) = AMBIGUOUS)).
      type (example_children ! i) = AMBIGUOUS"
    using collect_skips_unambiguous[of "(@)" 2 "[]" example_children example_heap] by simp
  have "fst x \<in> {0, 1}"
    if mem': "x \<in> set (collect_ops 2 (\<lambda>i. type (example_children ! i) = AMBIGUOUS))"
    for x
  proof -
    obtain i j target where x: "x = (i, j, target)" by (cases x)
    from mem' x
    have mem: "(i, j, target) \<in> set (collect_ops 2 (\<lambda>i. type (example_children ! i) = AMBIGUOUS))"
      by simp
    from all mem have "type (example_children ! i) = AMBIGUOUS" by auto
    moreover from mem have "i < 4" by (simp add: collect_ops_iff)
    ultimately have "i = 0 \<or> i = 1" by (rule h)
    then show ?thesis using x by auto
  qed
  then show ?thesis by (intro image_subsetI)
qed

section \<open>Properties of evalInterval\<close>

text \<open>
  Claim C6: when the interval evaluator reports that it is unsafe, \<^verbatim>\<open>evalInterval\<close> sets
  the type to AMBIGUOUS, does not call \<^verbatim>\<open>done()\<close> and returns (the original tape handle)
  without an error; when it is safe, the type is the state of the interval and
  \<^verbatim>\<open>done()\<close> is called exactly when that state is FILLED or EMPTY. For a node that was
  not done before, it is done afterwards exactly when its type is FILLED or EMPTY.
\<close>

theorem evalInterval_unsafe_ambiguous:
  "(case evalInterval env region tp t of (tp', t') \<Rightarrow>
      let lo = map (to_float env) (lower3 region);
          up = map (to_float env) (upper3 region);
          safe = interval_isSafe env lo up tp;
          st = Interval_state env (fst (interval_evalAndPush env lo up tp))
      in (\<not> safe \<longrightarrow> type t' = AMBIGUOUS \<and> done_flag t' = done_flag t \<and> tp' = tp)
       \<and> (safe \<longrightarrow> type t' = st \<and> tp' = snd (interval_evalAndPush env lo up tp)
              \<and> (done_flag t' \<longleftrightarrow> done_flag t \<or> st = FILLED \<or> st = EMPTY))
       \<and> (\<not> done_flag t \<longrightarrow> (done_flag t' \<longleftrightarrow> type t' = FILLED \<or> type t' = EMPTY))
       \<and> leaf t' = leaf t \<and> children t' = children t)"
  by (auto simp: evalInterval_def Let_def set_type_def xtree_done_def split: if_splits)

theorem evalInterval_unsafe_ambiguous_witness:
  "type (snd (evalInterval example_env example_region_unsafe () example_unknown)) = AMBIGUOUS
   \<and> \<not> done_flag (snd (evalInterval example_env example_region_unsafe () example_unknown))
   \<and> Interval_state example_env
        (fst (interval_evalAndPush example_env (lower3 example_region_unsafe)
               (upper3 example_region_unsafe) ())) = FILLED
   \<and> type (snd (evalInterval example_env example_region_inside () example_unknown)) = FILLED
   \<and> done_flag (snd (evalInterval example_env example_region_inside () example_unknown))"
  using evalInterval_unsafe_ambiguous[of example_env example_region_unsafe "()" example_unknown]
    evalInterval_unsafe_ambiguous[of example_env example_region_inside "()" example_unknown]
  by (simp add: Let_def example_env_def example_region_unsafe_def example_region_inside_def
        example_unknown_def lower3_def upper3_def split: prod.splits)

section \<open>Properties of saveVertexSigns\<close>

lemma saveVertexSigns_fold:
  fixes env :: "('q, 'p, 'r, 's::{zero,ord}, 'i, 'h) env"
  shows "(\<forall>a. vert (fold (saveVertexSigns_body env tp region already_solved lsub) [0..<n] h a) = vert (h a)
            \<and> (fold (saveVertexSigns_body env tp region already_solved lsub) [0..<n] h a = h a
               \<or> inside (fold (saveVertexSigns_body env tp region already_solved lsub) [0..<n] h a)
                    = vertex_sign env tp region (vert (h a))))
     \<and> (\<forall>i<n. \<not> already_solved ! i \<longrightarrow>
            inside (fold (saveVertexSigns_body env tp region already_solved lsub) [0..<n] h (lsub ! i))
              = vertex_sign env tp region (vert (h (lsub ! i))))"
proof (induction n)
  case 0
  then show ?case by simp
next
  case (Suc n)
  define F where "F = fold (saveVertexSigns_body env tp region already_solved lsub) [0..<n] h"
  have IH1: "vert (F a) = vert (h a)" for a
    using Suc unfolding F_def by blast
  have IH2: "F a = h a \<or> inside (F a) = vertex_sign env tp region (vert (h a))" for a
    using Suc unfolding F_def by blast
  have IH3: "inside (F (lsub ! i)) = vertex_sign env tp region (vert (h (lsub ! i)))"
    if "i < n" "\<not> already_solved ! i" for i
    using Suc that unfolding F_def by blast
  have step: "fold (saveVertexSigns_body env tp region already_solved lsub) [0..<Suc n] h
      = saveVertexSigns_body env tp region already_solved lsub n F"
    by (simp add: F_def)
  show ?case
  proof (cases "already_solved ! n")
    case True
    then have "saveVertexSigns_body env tp region already_solved lsub n F = F"
      by (simp add: saveVertexSigns_body_def)
    then show ?thesis
      unfolding step using IH1 IH2 IH3 True by (auto simp: less_Suc_eq)
  next
    case False
    define G where "G = saveVertexSigns_body env tp region already_solved lsub n F"
    have G: "G = F(lsub ! n := (F (lsub ! n))\<lparr>inside := vertex_sign env tp region (vert (h (lsub ! n)))\<rparr>)"
      using False by (simp add: G_def saveVertexSigns_body_def Let_def IH1)
    have a: "vert (G a) = vert (h a)" for a
      using IH1 by (simp add: G)
    have b: "G a = h a \<or> inside (G a) = vertex_sign env tp region (vert (h a))" for a
      using IH2[of a] by (auto simp: G)
    have c: "inside (G (lsub ! i)) = vertex_sign env tp region (vert (h (lsub ! i)))"
      if "i < Suc n" "\<not> already_solved ! i" for i
    proof (cases "lsub ! i = lsub ! n")
      case True
      then show ?thesis by (simp add: G)
    next
      case False
      with that have "i < n" by (auto simp: less_Suc_eq)
      then show ?thesis using IH3[OF _ that(2)] False by (simp add: G)
    qed
    show ?thesis
      unfolding step G_def[symmetric] using a b c by blast
  qed
qed

text \<open>
  Claim C7: for every subspace that is not already solved, \<^verbatim>\<open>saveVertexSigns\<close> leaves the
  vertex where it is and sets \<^verbatim>\<open>inside\<close> from the value of \<open>f\<close> at the vertex: to the
  answer of the feature evaluator's \<^verbatim>\<open>isInside\<close> when the value is zero, and to
  \<open>value < 0\<close> otherwise.
\<close>

theorem saveVertexSigns_inside:
  fixes env :: "('q, 'p, 'r, 's::{zero,ord}, 'i, 'h) env"
  assumes "i < ipow 3 N" and "\<not> already_solved ! i"
  shows "inside (saveVertexSigns env N tp region already_solved lsub h (lsub ! i))
       = (let p = vertex_point env region (vert (h (lsub ! i)));
              out = array_values env p tp
          in if out = 0 then feature_isInside env p tp else out < 0)
     \<and> vert (saveVertexSigns env N tp region already_solved lsub h (lsub ! i)) = vert (h (lsub ! i))"
  using assms saveVertexSigns_fold[where env = env and tp = tp and region = region
      and already_solved = already_solved and lsub = lsub and n = "ipow 3 N" and h = h]
  unfolding saveVertexSigns_def vertex_sign_def by (simp add: Let_def)


theorem saveVertexSigns_inside_witness:
  "inside (saveVertexSigns example_env 2 () example_region (replicate 9 False)
            (sub example_leaf_A) example_heap 1)
   \<and> inside (saveVertexSigns example_env 2 () example_region (replicate 9 False)
            (sub example_leaf_A) example_heap 5)
   \<and> \<not> inside (saveVertexSigns example_env 2 () example_region (replicate 9 False)
            (sub example_leaf_A) example_heap 9)"
  using saveVertexSigns_inside[of 0 2 "replicate 9 False" example_env "()" example_region
      "sub example_leaf_A" example_heap]
    saveVertexSigns_inside[of 4 2 "replicate 9 False" example_env "()" example_region
      "sub example_leaf_A" example_heap]
    saveVertexSigns_inside[of 8 2 "replicate 9 False" example_env "()" example_region
      "sub example_leaf_A" example_heap]
  by (simp add: ipow_def Let_def example_leaf_A_def example_heap_def example_env_def
        example_region_def vertex_point_def)

section \<open>Properties of the subspace vertex solve\<close>

lemma fold_if_foldl:
  "fold (\<lambda>i q. if P i then f q (g i) else q) xs q0 = foldl f q0 (map g (filter P xs))"
  by (induction xs arbitrary: q0) auto

lemma contains_digits:
  "contains s r \<longleftrightarrow> (\<forall>d. (s div 3 ^ d) mod 3 = 1 \<or> (s div 3 ^ d) mod 3 = (r div 3 ^ d) mod 3)"
proof (induction s r rule: contains.induct)
  case (1 s r)
  show ?case
  proof (cases "s = 0 \<and> r = 0")
    case True
    then show ?thesis by (simp add: contains.simps)
  next
    case False
    have "(\<forall>d. (s div 3 ^ d) mod 3 = 1 \<or> (s div 3 ^ d) mod 3 = (r div 3 ^ d) mod 3)
      \<longleftrightarrow> (s mod 3 = 1 \<or> s mod 3 = r mod 3)
          \<and> (\<forall>d. (s div 3 ^ Suc d) mod 3 = 1 \<or> (s div 3 ^ Suc d) mod 3 = (r div 3 ^ Suc d) mod 3)"
      (is "?L \<longleftrightarrow> ?H \<and> ?T")
    proof
      assume L: ?L
      from L[rule_format, of 0] have ?H by simp
      moreover have ?T using L by blast
      ultimately show "?H \<and> ?T" ..
    next
      assume HT: "?H \<and> ?T"
      show ?L
      proof
        fix d
        show "(s div 3 ^ d) mod 3 = 1 \<or> (s div 3 ^ d) mod 3 = (r div 3 ^ d) mod 3"
          using HT by (cases d) auto
      qed
    qed
    also have "?T \<longleftrightarrow> (\<forall>d. (s div 3 div 3 ^ d) mod 3 = 1
          \<or> (s div 3 div 3 ^ d) mod 3 = (r div 3 div 3 ^ d) mod 3)"
      by (simp add: div_mult2_eq)
    also have "\<dots> \<longleftrightarrow> contains (s div 3) (r div 3)"
      using 1[OF False] by simp
    finally show ?thesis
      using False by (subst contains.simps) auto
  qed
qed

lemma contains_masks:
  "contains s r \<longleftrightarrow>
     (\<forall>d. \<not> bit (floating s) d \<longrightarrow> \<not> bit (floating r) d \<and> (bit (pos r) d \<longleftrightarrow> bit (pos s) d))"
proof -
  have "(x mod 3 = 1 \<or> x mod 3 = y mod 3)
      \<longleftrightarrow> (x mod 3 \<noteq> 1 \<longrightarrow> y mod 3 \<noteq> 1 \<and> (y mod 3 = 2 \<longleftrightarrow> x mod 3 = 2))" for x y :: nat
    by presburger
  then show ?thesis
    unfolding contains_digits bit_floating bit_pos by simp
qed

lemma Unroller_heap:
  "snd (Unroller env N n lsub already_solved region h)
     = fold (\<lambda>s h. snd (Unroller_body env N lsub already_solved region h s)) (rev [0..<n]) h"
proof (induction n arbitrary: h)
  case 0
  then show ?case by simp
next
  case (Suc n)
  obtain e h1 where b: "Unroller_body env N lsub already_solved region h n = (e, h1)"
    by (cases "Unroller_body env N lsub already_solved region h n")
  obtain r h2 where u: "Unroller env N n lsub already_solved region h1 = (r, h2)"
    by (cases "Unroller env N n lsub already_solved region h1")
  have "snd (Unroller env N (Suc n) lsub already_solved region h) = h2"
    by (simp add: b u)
  also have "\<dots> = snd (Unroller env N n lsub already_solved region h1)"
    by (simp add: u)
  also have "\<dots> = fold (\<lambda>s h. snd (Unroller_body env N lsub already_solved region h s))
      (rev [0..<n]) h1"
    by (rule Suc.IH)
  finally show ?case by (simp add: b)
qed

lemma Unroller_qef_foldl:
  "Unroller_qef env N lsub h s =
     foldl (sub_add env) (sub_zero env (dimension s))
       (map (\<lambda>r. qef_sub env (floating s) (qef (h (lsub ! r))))
            (filter (contains s) [0..<ipow 3 N]))"
  unfolding Unroller_qef_def by (rule fold_if_foldl)

text \<open>
  Claim C2, as amended: for every subspace \<open>s\<close> that is not already solved, the QEF that
  is minimised is the sum, over the subspaces \<open>r\<close> of the same cell that \<open>s\<close> contains
  (every axis fixed in \<open>s\<close> is fixed on the same side in \<open>r\<close>: \<open>s\<close> itself and the
  lower-dimensional subspaces on its boundary), of the QEF of \<open>r\<close> projected to the
  floating axes of \<open>s\<close>; it is minimised by \<^verbatim>\<open>solveBounded\<close> over the region restricted
  to the floating axes of \<open>s\<close>, and the solution is unpacked into the vertex of \<open>s\<close>.
  The unrolled recursion runs this body for every subspace, in decreasing order.
\<close>

theorem Unroller_sums_contained_subspaces:
  fixes env :: "('q, 'p, 'r, 's::{zero,ord}, 'i, 'h) env"
  assumes "\<not> already_solved ! s"
  shows "Unroller_body env N lsub already_solved region h s =
           (let q = foldl (sub_add env) (sub_zero env (dimension s))
                      (map (\<lambda>r. qef_sub env (floating s) (qef (h (lsub ! r))))
                           (filter (contains s) [0..<ipow 3 N]));
                sol = solveBounded env q (region_subspace env (floating s) region)
            in (snd sol,
                h(lsub ! s := (h (lsub ! s))
                   \<lparr>vert := Unroller_unpack N s region (fst sol) (vert (h (lsub ! s)))\<rparr>)))
     \<and> (\<forall>r. contains s r \<longleftrightarrow>
            (\<forall>d. \<not> bit (floating s) d \<longrightarrow>
                 \<not> bit (floating r) d \<and> (bit (pos r) d \<longleftrightarrow> bit (pos s) d)))
     \<and> snd (Unroller env N (ipow 3 N) lsub already_solved region h)
         = fold (\<lambda>s h. snd (Unroller_body env N lsub already_solved region h s))
             (rev [0..<ipow 3 N]) h"
proof (intro conjI)
  show "Unroller_body env N lsub already_solved region h s =
           (let q = foldl (sub_add env) (sub_zero env (dimension s))
                      (map (\<lambda>r. qef_sub env (floating s) (qef (h (lsub ! r))))
                           (filter (contains s) [0..<ipow 3 N]));
                sol = solveBounded env q (region_subspace env (floating s) region)
            in (snd sol,
                h(lsub ! s := (h (lsub ! s))
                   \<lparr>vert := Unroller_unpack N s region (fst sol) (vert (h (lsub ! s)))\<rparr>)))"
    using assms unfolding Unroller_body_def Unroller_qef_foldl by (simp add: Let_def)
  show "\<forall>r. contains s r \<longleftrightarrow>
            (\<forall>d. \<not> bit (floating s) d \<longrightarrow>
                 \<not> bit (floating r) d \<and> (bit (pos r) d \<longleftrightarrow> bit (pos s) d))"
    using contains_masks by blast
  show "snd (Unroller env N (ipow 3 N) lsub already_solved region h)
         = fold (\<lambda>s h. snd (Unroller_body env N lsub already_solved region h s))
             (rev [0..<ipow 3 N]) h"
    by (rule Unroller_heap)
qed

theorem Unroller_sums_contained_subspaces_witness:
  "fst (Unroller_body example_env 2 (sub example_leaf_A) (replicate 9 False) example_region
         example_heap 4) = 9"
proof -
  have h: "\<not> replicate 9 False ! 4" by simp
  have "Unroller_body example_env 2 (sub example_leaf_A) (replicate 9 False) example_region
         example_heap 4 =
        (let q = foldl (sub_add example_env) (sub_zero example_env (dimension 4))
                   (map (\<lambda>r. qef_sub example_env (floating 4)
                            (qef (example_heap (sub example_leaf_A ! r))))
                        (filter (contains 4) [0..<ipow 3 2]));
             sol = solveBounded example_env q
                     (region_subspace example_env (floating 4) example_region)
         in (snd sol,
             example_heap(sub example_leaf_A ! 4 := (example_heap (sub example_leaf_A ! 4))
                \<lparr>vert := Unroller_unpack 2 4 example_region (fst sol)
                           (vert (example_heap (sub example_leaf_A ! 4)))\<rparr>)))"
    using Unroller_sums_contained_subspaces[OF h, where env = example_env and N = 2
        and lsub = "sub example_leaf_A" and region = example_region and h = example_heap]
    by blast
  then have "fst (Unroller_body example_env 2 (sub example_leaf_A) (replicate 9 False)
         example_region example_heap 4)
      = snd (solveBounded example_env
           (foldl (sub_add example_env) (sub_zero example_env (dimension 4))
                   (map (\<lambda>r. qef_sub example_env (floating 4)
                            (qef (example_heap (sub example_leaf_A ! r))))
                        (filter (contains 4) [0..<ipow 3 2])))
           (region_subspace example_env (floating 4) example_region))"
    by (simp add: Let_def)
  also have "\<dots> = 9" by code_simp
  finally show ?thesis .
qed

text \<open>
  Claim C2 as stated fails: the claim sums over the subspaces \<open>r\<close> that contain \<open>s\<close>. For
  the quadtree leaf of the examples and the corner \<open>s = 0\<close>, the code sums the QEF of the
  corner alone, while the subspaces that contain the corner are the corner, two edges
  and the body (0, 1, 3, 4); for the body \<open>s = 4\<close> the code sums all nine subspaces, while
  only the body contains the body.
\<close>

theorem Unroller_not_containing_subspaces:
  "contains 4 0 \<and> \<not> contains 0 4
   \<and> Unroller_qef example_env 2 (sub example_leaf_A) example_heap 0 = [1]
   \<and> claimed_qef example_env 2 (sub example_leaf_A) example_heap 0 = [1, 2, 4, 5]
   \<and> Unroller_qef example_env 2 (sub example_leaf_A) example_heap 4 = [1, 2, 3, 4, 5, 6, 7, 8, 9]
   \<and> claimed_qef example_env 2 (sub example_leaf_A) example_heap 4 = [5]"
  by code_simp

section \<open>Properties of collectChildren and evalLeaf\<close>

lemma fold_conj_set: "fold (\<lambda>c b. b \<and> P c) cs b0 \<longleftrightarrow> b0 \<and> (\<forall>c\<in>set cs. P c)"
  by (induction cs arbitrary: b0) auto

lemma fold_conj_upt: "fold (\<lambda>i b. b \<and> P i) [0..<n] b0 \<longleftrightarrow> b0 \<and> (\<forall>i<n. P i)"
  by (induction n arbitrary: b0) (auto simp: less_Suc_eq)

lemma ipow_pos: "0 < ipow 3 N"
  by (simp add: ipow_def)

lemma evalLeaf_type_cases:
  "(evalLeaf_type N lsub h = FILLED \<longleftrightarrow> (\<forall>i<ipow 3 N. inside (h (lsub ! i))))
   \<and> (evalLeaf_type N lsub h = EMPTY \<longleftrightarrow> (\<forall>i<ipow 3 N. \<not> inside (h (lsub ! i))))
   \<and> (evalLeaf_type N lsub h = AMBIGUOUS \<longleftrightarrow>
        (\<exists>i<ipow 3 N. inside (h (lsub ! i))) \<and> (\<exists>i<ipow 3 N. \<not> inside (h (lsub ! i))))"
  using ipow_pos[of N] unfolding evalLeaf_type_def Let_def fold_conj_upt by auto

text \<open>
  Claim C3: for a branch with \<open>2 ^ N\<close> children, none of them a branch, that are neither
  all EMPTY nor all FILLED, \<^verbatim>\<open>collectChildren\<close> keeps the children and leaves the node
  without a leaf, for every \<^verbatim>\<open>max_err\<close>: when the join counter has reached zero the
  tentative leaf is discarded, the type is AMBIGUOUS and the node is done; otherwise
  the call only decrements the counter.
\<close>

theorem collectChildren_never_collapses:
  fixes env :: "('q, 'p, 'r, 's::{zero,ord}, 'i, 'h) env"
  assumes "length (children t) = ipow 2 N"
    and "\<not> list_ex isBranch (children t)"
    and "\<exists>c\<in>set (children t). type c \<noteq> EMPTY"
    and "\<exists>c\<in>set (children t). type c \<noteq> FILLED"
  shows "case collectChildren env N tp max_err region t p h of (r, t', p', h') \<Rightarrow>
      children t' = children t \<and> isBranch t'
      \<and> (pending t = 0 \<longrightarrow> r \<and> leaf t' = None \<and> type t' = AMBIGUOUS \<and> done_flag t')
      \<and> (pending t \<noteq> 0 \<longrightarrow> \<not> r \<and> leaf t' = leaf t \<and> type t' = type t)"
proof -
  have ne: "children t \<noteq> []" using assms(1) by (auto simp: ipow_def)
  have e: "\<not> fold (\<lambda>c b. b \<and> type c = EMPTY) (children t) True"
    using assms(3) by (simp add: fold_conj_set)
  have f: "\<not> fold (\<lambda>c b. b \<and> type c = FILLED) (children t) True"
    using assms(4) by (simp add: fold_conj_set)
  show ?thesis
    using ne assms(2) e f
    by (simp add: collectChildren_def Let_def set_pending_def set_type_def set_leaf_def
        xtree_done_def isBranch_def split: prod.splits)
qed



theorem collectChildren_never_collapses_witness:
  "leaf (fst (snd (collectChildren example_env 2 () 5 example_region example_root
                    example_pool example_heap))) = None
   \<and> children (fst (snd (collectChildren example_env 2 () 5 example_region example_root
                    example_pool example_heap))) = example_children
   \<and> fst (collectChildren example_env 2 () 5 example_region example_root
                    example_pool example_heap)"
proof -
  have a: "length (children example_root) = ipow 2 2"
    by (simp add: example_root_def example_children_def ipow_def)
  have b: "\<not> list_ex isBranch (children example_root)"
    by (simp add: example_root_def example_children_def example_node_A_def example_node_B_def
        example_empty_def isBranch_def)
  have c: "\<exists>c\<in>set (children example_root). type c \<noteq> EMPTY"
    by (simp add: example_root_def example_children_def example_node_A_def)
  have d: "\<exists>c\<in>set (children example_root). type c \<noteq> FILLED"
    by (simp add: example_root_def example_children_def example_node_A_def)
  have e: "pending example_root = 0" "children example_root = example_children"
    by (simp_all add: example_root_def)
  show ?thesis
    using collectChildren_never_collapses[OF a b c d, of example_env "()" 5 example_region
        example_pool example_heap] e
    by (simp add: case_prod_beta)
qed

lemma release_fold:
  fixes h :: "('q, 's::zero) heap"
  assumes "distinct xs"
      and F: "F = (\<lambda>s (p, h).
             let h1 = h(s := (h s)\<lparr>refcount := refcount (h s) - 1\<rparr>)
             in if refcount (h1 s) = 0 then pool_put N qz s p h1 else (p, h1))"
  shows "case fold F xs (p, h) of
           (p', h') \<Rightarrow>
             fresh p' = fresh p
           \<and> set (free p') = set (free p) \<union> {a \<in> set xs. refcount (h a) = 1}
           \<and> (\<forall>a. h' a = (if a \<in> set xs
                           then if refcount (h a) = 1 then SimplexLeafSubspace_reset N qz
                                else (h a)\<lparr>refcount := refcount (h a) - 1\<rparr>
                           else h a))"
  using assms(1)
proof (induction xs arbitrary: p h)
  case Nil
  then show ?case by simp
next
  case (Cons x xs)
  define h1 where "h1 = h(x := (h x)\<lparr>refcount := refcount (h x) - 1\<rparr>)"
  have x: "x \<notin> set xs" and d: "distinct xs" using Cons.prems by auto
  have one: "refcount (h1 x) = 0 \<longleftrightarrow> refcount (h x) = 1"
    by (simp add: h1_def)
  obtain p2 h2 where st2: "F x (p, h) = (p2, h2)" by (cases "F x (p, h)")
  then have st: "(if refcount (h1 x) = 0 then pool_put N qz x p h1 else (p, h1)) = (p2, h2)"
    unfolding F h1_def by (simp add: Let_def)
  have p2: "fresh p2 = fresh p" "set (free p2) = set (free p) \<union> {a. a = x \<and> refcount (h x) = 1}"
    using st one by (auto simp: pool_put_def split: if_splits)
  have h2: "h2 a = (if a = x then if refcount (h x) = 1 then SimplexLeafSubspace_reset N qz
                                else (h x)\<lparr>refcount := refcount (h x) - 1\<rparr>
                    else h a)" for a
    using st one by (auto simp: pool_put_def h1_def split: if_splits)
  have step: "fold F (x # xs) (p, h) = fold F xs (p2, h2)"
    by (simp add: st2)
  have same: "{a \<in> set xs. refcount (h2 a) = 1} = {a \<in> set xs. refcount (h a) = 1}"
    using x by (auto simp: h2)
  obtain p3 h3 where f3: "fold F xs (p2, h2) = (p3, h3)" by (cases "fold F xs (p2, h2)")
  from Cons.IH[OF d, where p = p2 and h = h2]
  have i1: "fresh p3 = fresh p2"
    and i2: "set (free p3) = set (free p2) \<union> {a \<in> set xs. refcount (h2 a) = 1}"
    and i3: "h3 a = (if a \<in> set xs
                     then if refcount (h2 a) = 1 then SimplexLeafSubspace_reset N qz
                          else (h2 a)\<lparr>refcount := refcount (h2 a) - 1\<rparr>
                     else h2 a)" for a
    unfolding f3 by simp_all
  have r1: "fresh p3 = fresh p" using i1 p2 by simp
  have r2: "set (free p3) = set (free p) \<union> {a \<in> set (x # xs). refcount (h a) = 1}"
    unfolding i2 same p2 by auto
  have r3: "h3 a = (if a \<in> set (x # xs)
                     then if refcount (h a) = 1 then SimplexLeafSubspace_reset N qz
                          else (h a)\<lparr>refcount := refcount (h a) - 1\<rparr>
                     else h a)" for a
    using x unfolding i3[of a] h2 by auto
  show ?case
    unfolding step f3 using r1 r2 r3 by simp
qed

text \<open>
  Claim C4: after \<^verbatim>\<open>evalLeaf\<close> the type of the node is FILLED exactly when every one of the
  \<open>3 ^ N\<close> subspace vertices is inside, EMPTY exactly when every one is outside, and
  AMBIGUOUS otherwise. A node whose type is FILLED or EMPTY holds no leaf, and the
  pool and the store that \<^verbatim>\<open>evalLeaf\<close> returns are those of \<^verbatim>\<open>releaseTo\<close> on the leaf:
  when the subspace objects of the leaf are distinct, every one of them has lost one
  reference, and the ones that held their last reference are reset and back on the
  free list of the pool. An AMBIGUOUS node holds the leaf, and nothing is released.
  \<^verbatim>\<open>collectChildren\<close> does not touch the leaf of a node when it sets the type to FILLED or
  EMPTY: a node without a leaf has none afterwards; what is released on that path are
  the children, each through \<^verbatim>\<open>releaseTo\<close>, so the node is not a branch.
\<close>

theorem evalLeaf_classification:
  fixes env :: "('q, 'p, 'r, 's::{zero,ord}, 'i, 'h) env"
  shows "(case evalLeaf_solve env N check region tp p h of (l, already_solved, p1, h1) \<Rightarrow>
          case evalLeaf env N check region tp t p h of (t', p', h') \<Rightarrow>
            (type t' = FILLED \<longleftrightarrow> (\<forall>i<ipow 3 N. inside (h1 (sub l ! i))))
          \<and> (type t' = EMPTY \<longleftrightarrow> (\<forall>i<ipow 3 N. \<not> inside (h1 (sub l ! i))))
          \<and> (type t' = AMBIGUOUS \<longleftrightarrow>
               (\<exists>i<ipow 3 N. inside (h1 (sub l ! i))) \<and> (\<exists>i<ipow 3 N. \<not> inside (h1 (sub l ! i))))
          \<and> (type t' = FILLED \<or> type t' = EMPTY \<longrightarrow> leaf t' = None)
          \<and> (type t' = AMBIGUOUS \<longrightarrow> leaf t' = Some l)
          \<and> children t' = children t \<and> done_flag t'
          \<and> (type t' = FILLED \<or> type t' = EMPTY \<longrightarrow>
               (p', h') = SimplexLeaf_releaseTo N (qef_zero env) l p1 h1)
          \<and> (type t' = AMBIGUOUS \<longrightarrow> (p', h') = (p1, h1))
          \<and> ((type t' = FILLED \<or> type t' = EMPTY) \<and> distinct (sub l) \<longrightarrow>
               fresh p' = fresh p1
               \<and> set (free p') = set (free p1) \<union> {a \<in> set (sub l). refcount (h1 a) = 1}
               \<and> (\<forall>a. h' a = (if a \<in> set (sub l)
                       then if refcount (h1 a) = 1 then SimplexLeafSubspace_reset N (qef_zero env)
                            else (h1 a)\<lparr>refcount := refcount (h1 a) - 1\<rparr>
                       else h1 a))))
       \<and> (case collectChildren env N tp max_err region t p h of (r, t', p', h') \<Rightarrow>
              (leaf t = None \<longrightarrow> leaf t' = None)
              \<and> (pending t = 0 \<and> \<not> list_ex isBranch (children t)
                    \<and> (type t' = FILLED \<or> type t' = EMPTY) \<longrightarrow>
                  \<not> isBranch t' \<and> leaf t' = leaf t
                  \<and> (p', h') = fold (\<lambda>c (p, h).
                        case SimplexTree_releaseTo N (qef_zero env) c p h of (c', p', h') \<Rightarrow> (p', h'))
                      (children t) (p, h)))"
proof (intro conjI)
  show "case evalLeaf_solve env N check region tp p h of (l, already_solved, p1, h1) \<Rightarrow>
          case evalLeaf env N check region tp t p h of (t', p', h') \<Rightarrow>
            (type t' = FILLED \<longleftrightarrow> (\<forall>i<ipow 3 N. inside (h1 (sub l ! i))))
          \<and> (type t' = EMPTY \<longleftrightarrow> (\<forall>i<ipow 3 N. \<not> inside (h1 (sub l ! i))))
          \<and> (type t' = AMBIGUOUS \<longleftrightarrow>
               (\<exists>i<ipow 3 N. inside (h1 (sub l ! i))) \<and> (\<exists>i<ipow 3 N. \<not> inside (h1 (sub l ! i))))
          \<and> (type t' = FILLED \<or> type t' = EMPTY \<longrightarrow> leaf t' = None)
          \<and> (type t' = AMBIGUOUS \<longrightarrow> leaf t' = Some l)
          \<and> children t' = children t \<and> done_flag t'
          \<and> (type t' = FILLED \<or> type t' = EMPTY \<longrightarrow>
               (p', h') = SimplexLeaf_releaseTo N (qef_zero env) l p1 h1)
          \<and> (type t' = AMBIGUOUS \<longrightarrow> (p', h') = (p1, h1))
          \<and> ((type t' = FILLED \<or> type t' = EMPTY) \<and> distinct (sub l) \<longrightarrow>
               fresh p' = fresh p1
               \<and> set (free p') = set (free p1) \<union> {a \<in> set (sub l). refcount (h1 a) = 1}
               \<and> (\<forall>a. h' a = (if a \<in> set (sub l)
                       then if refcount (h1 a) = 1 then SimplexLeafSubspace_reset N (qef_zero env)
                            else (h1 a)\<lparr>refcount := refcount (h1 a) - 1\<rparr>
                       else h1 a)))"
  proof -
    obtain l already_solved p1 h1 where
      s: "evalLeaf_solve env N check region tp p h = (l, already_solved, p1, h1)"
      by (cases "evalLeaf_solve env N check region tp p h") auto
    obtain p2 h2 where r: "SimplexLeaf_releaseTo N (qef_zero env) l p1 h1 = (p2, h2)"
      by (cases "SimplexLeaf_releaseTo N (qef_zero env) l p1 h1")
    note c = evalLeaf_type_cases[of N "sub l" h1]
    have rel: "fresh p2 = fresh p1
        \<and> set (free p2) = set (free p1) \<union> {a \<in> set (sub l). refcount (h1 a) = 1}
        \<and> (\<forall>a. h2 a = (if a \<in> set (sub l)
                then if refcount (h1 a) = 1 then SimplexLeafSubspace_reset N (qef_zero env)
                     else (h1 a)\<lparr>refcount := refcount (h1 a) - 1\<rparr>
                else h1 a))"
      if "distinct (sub l)"
      using release_fold[OF that refl, where N = N and qz = "qef_zero env" and p = p1 and h = h1] r
      unfolding SimplexLeaf_releaseTo_def by simp
    show ?thesis
    proof (cases "evalLeaf_type N (sub l) h1 = AMBIGUOUS")
      case True
      then have "evalLeaf env N check region tp t p h
          = (xtree_done (set_type AMBIGUOUS (set_leaf (Some l) t)), p1, h1)"
        by (simp add: evalLeaf_def s Let_def set_type_def)
      then show ?thesis
        using c True by (simp add: s set_type_def set_leaf_def xtree_done_def)
    next
      case False
      then have e: "evalLeaf env N check region tp t p h
          = (xtree_done (set_leaf None (set_type (evalLeaf_type N (sub l) h1)
                (set_leaf (Some l) t))), p2, h2)"
        by (simp add: evalLeaf_def s r Let_def set_type_def)
      define t2 where "t2 = xtree_done (set_leaf None (set_type (evalLeaf_type N (sub l) h1)
                (set_leaf (Some l) t)))"
      have ty: "type t2 = evalLeaf_type N (sub l) h1" and lf: "leaf t2 = None"
        and ch: "children t2 = children t" and dn: "done_flag t2"
        by (simp_all add: t2_def set_type_def set_leaf_def xtree_done_def)
      show ?thesis
        unfolding s e prod.case t2_def[symmetric] ty lf ch dn r
        using c False rel dn by auto
    qed
  qed
next
  show "case collectChildren env N tp max_err region t p h of (r, t', p', h') \<Rightarrow>
              (leaf t = None \<longrightarrow> leaf t' = None)
              \<and> (pending t = 0 \<and> \<not> list_ex isBranch (children t)
                    \<and> (type t' = FILLED \<or> type t' = EMPTY) \<longrightarrow>
                  \<not> isBranch t' \<and> leaf t' = leaf t
                  \<and> (p', h') = fold (\<lambda>c (p, h).
                        case SimplexTree_releaseTo N (qef_zero env) c p h of (c', p', h') \<Rightarrow> (p', h'))
                      (children t) (p, h))"
    by (auto simp: collectChildren_def Let_def set_pending_def set_type_def set_leaf_def
        xtree_done_def isBranch_def releaseChildren_def split: prod.splits if_splits)
qed


text \<open>Evaluating \<^verbatim>\<open>evalLeaf\<close> on the example cell, stage by stage.\<close>

lemma upt_0_2: "[0..<2] = [0, 1]" by code_simp
lemma rep9: "replicate 9 x = [x, x, x, x, x, x, x, x, x]" by (simp add: numeral_eq_Suc)
lemma rep2: "replicate 2 x = [x, x]" by (simp add: numeral_eq_Suc)
lemma fl: "map floating [0, 1, 2, 3, 4, 5, 6, 7, 8] = [0, 1, 0, 2, 3, 2, 0, 1, 0]" by code_simp
lemma ps: "map pos [0, 1, 2, 3, 4, 5, 6, 7, 8] = [0, 0, 1, 0, 0, 1, 2, 2, 3]" by code_simp
lemma dm: "map dimension [0, 1, 2, 3, 4, 5, 6, 7, 8] = [0, 1, 0, 1, 2, 1, 0, 1, 0]" by code_simp
lemma cn: "map corner_neighbor [0, 1, 2, 3] = [0, 2, 6, 8]" by code_simp
lemma ct: "map (\<lambda>s. filter (contains s) [0, 1, 2, 3, 4, 5, 6, 7, 8]) [0, 1, 2, 3, 4, 5, 6, 7, 8] =
  [[0], [0, 1, 2], [2], [0, 3, 6], [0, 1, 2, 3, 4, 5, 6, 7, 8], [2, 5, 8], [6], [6, 7, 8], [8]]"
  by code_simp

lemmas tables = fl[simplified] ps[simplified] dm[simplified] cn[simplified] ct[simplified]

lemmas ev_cong = let_weak_cong prod.case_cong_weak option.case_cong_weak list.case_cong_weak

lemma ex_borrow:
  "evalLeaf_borrow (qef_zero example_env) 2 example_check example_pool h =
     ([20, 21, 22, 23, 24, 25, 26, 27, 28], replicate 9 False, \<lparr>free = [], fresh = 29\<rparr>,
      h(20 := (h 20)\<lparr>inside := False, index := 0, qef := [], refcount := refcount (h 20) + 1\<rparr>,
        21 := (h 21)\<lparr>inside := False, index := 0, qef := [], refcount := refcount (h 21) + 1\<rparr>,
        22 := (h 22)\<lparr>inside := False, index := 0, qef := [], refcount := refcount (h 22) + 1\<rparr>,
        23 := (h 23)\<lparr>inside := False, index := 0, qef := [], refcount := refcount (h 23) + 1\<rparr>,
        24 := (h 24)\<lparr>inside := False, index := 0, qef := [], refcount := refcount (h 24) + 1\<rparr>,
        25 := (h 25)\<lparr>inside := False, index := 0, qef := [], refcount := refcount (h 25) + 1\<rparr>,
        26 := (h 26)\<lparr>inside := False, index := 0, qef := [], refcount := refcount (h 26) + 1\<rparr>,
        27 := (h 27)\<lparr>inside := False, index := 0, qef := [], refcount := refcount (h 27) + 1\<rparr>,
        28 := (h 28)\<lparr>inside := False, index := 0, qef := [], refcount := refcount (h 28) + 1\<rparr>))"
  by (simp add: evalLeaf_borrow_def example_check_def example_pool_def pool_get_def ipow_def
      upt_0_9 rep9 SimplexLeafSubspace_init_def example_env_def cong: ev_cong)

lemma ex_sample:
  "evalLeaf_sample example_env 2 example_region_inside () [20, 21, 22, 23, 24, 25, 26, 27, 28]
      (evalLeaf_corners 2 (replicate 9 False)) h =
   h(20 := (h 20)\<lparr>qef := qef (h 20) @ [0]\<rparr>, 22 := (h 22)\<lparr>qef := qef (h 22) @ [0]\<rparr>,
     26 := (h 26)\<lparr>qef := qef (h 26) @ [0]\<rparr>, 28 := (h 28)\<lparr>qef := qef (h 28) @ [0]\<rparr>)"
  by (simp add: ipow_def upt_0_9 upt_0_4 upt_0_2 rep9 rep2 example_env_def
      evalLeaf_corners_def evalLeaf_sample_def evalLeaf_push_def corner3f_def corner_def
      example_region_inside_def tables Let_def bit_0 bit_Suc cong: ev_cong)

lemma ex_unroll:
  "snd (Unroller example_env 2 (ipow 3 2) [20, 21, 22, 23, 24, 25, 26, 27, 28] (replicate 9 False)
      example_region_inside h) =
   h(28 := (h 28)\<lparr>vert := (vert (h 28))[0 := - 2, Suc 0 := 1]\<rparr>,
     27 := (h 27)\<lparr>vert := (vert (h 27))[0 := - 3, Suc 0 := 1]\<rparr>,
     26 := (h 26)\<lparr>vert := (vert (h 26))[0 := - 3, Suc 0 := 1]\<rparr>,
     25 := (h 25)\<lparr>vert := (vert (h 25))[0 := - 2, Suc 0 := 0]\<rparr>,
     24 := (h 24)\<lparr>vert := (vert (h 24))[0 := - 3, Suc 0 := 0]\<rparr>,
     23 := (h 23)\<lparr>vert := (vert (h 23))[0 := - 3, Suc 0 := 0]\<rparr>,
     22 := (h 22)\<lparr>vert := (vert (h 22))[0 := - 2, Suc 0 := 0]\<rparr>,
     21 := (h 21)\<lparr>vert := (vert (h 21))[0 := - 3, Suc 0 := 0]\<rparr>,
     20 := (h 20)\<lparr>vert := (vert (h 20))[0 := - 3, Suc 0 := 0]\<rparr>)"
  by (simp add: ipow_def upt_0_9 upt_0_4 upt_0_2 rep9 rep2
       example_env_def Unroller_heap Unroller_body_def Unroller_qef_def Unroller_unpack_def
      example_region_inside_def tables Let_def bit_0 bit_Suc and_push_bit_test)


lemma saveVertexSigns_refcount:
  fixes env :: "('q, 'p, 'r, 's::{zero,ord}, 'i, 'h) env"
  shows "refcount (fold (saveVertexSigns_body env tp region already_solved lsub) [0..<n] h a)
       = refcount (h a)"
  by (induction n) (auto simp: saveVertexSigns_body_def Let_def)

theorem evalLeaf_classification_witness:
  "type (fst (evalLeaf example_env 2 example_check example_region_inside () example_unknown
               example_pool example_heap)) = FILLED
   \<and> leaf (fst (evalLeaf example_env 2 example_check example_region_inside () example_unknown
               example_pool example_heap)) = None
   \<and> set (free (fst (snd (evalLeaf example_env 2 example_check example_region_inside ()
               example_unknown example_pool example_heap))))
       = {20, 21, 22, 23, 24, 25, 26, 27, 28}
   \<and> snd (snd (evalLeaf example_env 2 example_check example_region_inside () example_unknown
               example_pool example_heap)) 20 = SimplexLeafSubspace_reset 2 []
   \<and> type (fst (snd (collectChildren example_env 2 () 5 example_region example_root_empty
               example_pool example_heap))) = EMPTY
   \<and> leaf (fst (snd (collectChildren example_env 2 () 5 example_region example_root_empty
               example_pool example_heap))) = None
   \<and> \<not> isBranch (fst (snd (collectChildren example_env 2 () 5 example_region
               example_root_empty example_pool example_heap)))
   \<and> snd (snd (collectChildren example_env 2 () 5 example_region example_root_empty
               example_pool example_heap)) = (example_pool, example_heap)"
proof -
  let ?lsb = "[20, 21, 22, 23, 24, 25, 26, 27, 28]"
  let ?no = "replicate 9 False"
  define H1 where "H1 = snd (snd (snd (evalLeaf_borrow (qef_zero example_env) 2 example_check
      example_pool example_heap)))"
  define H2 where "H2 = evalLeaf_sample example_env 2 example_region_inside () ?lsb
      (evalLeaf_corners 2 ?no) H1"
  define H3 where "H3 = snd (Unroller example_env 2 (ipow 3 2) ?lsb ?no example_region_inside H2)"
  define H4 where "H4 = saveVertexSigns example_env 2 () example_region_inside ?no ?lsb H3"
  have b: "evalLeaf_borrow (qef_zero example_env) 2 example_check example_pool example_heap
      = (?lsb, ?no, \<lparr>free = [], fresh = 29\<rparr>, H1)"
    unfolding H1_def ex_borrow by simp
  have v1: "vert (H1 a) = vert (example_heap a)" for a
    unfolding H1_def ex_borrow by simp
  have v2: "vert (H2 a) = vert (example_heap a)" for a
    unfolding H2_def ex_sample using v1 by simp
  have v3: "map (\<lambda>a. vert (H3 a)) ?lsb
      = [[- 3, 0], [- 3, 0], [- 2, 0], [- 3, 0], [- 3, 0], [- 2, 0], [- 3, 1], [- 3, 1], [- 2, 1]]"
    unfolding H3_def ex_unroll by (simp add: v2 example_heap_def)
  have sgn: "vertex_sign example_env () example_region_inside [x, y] \<longleftrightarrow> x \<le> 0" for x y
    by (auto simp: vertex_sign_def vertex_point_def example_env_def Let_def)
  have "\<forall>i<9. \<not> ?no ! i \<longrightarrow>
      inside (H4 (?lsb ! i)) = vertex_sign example_env () example_region_inside (vert (H3 (?lsb ! i)))"
    using saveVertexSigns_fold[where env = example_env and tp = "()"
        and region = example_region_inside and already_solved = ?no and lsub = ?lsb
        and n = 9 and h = H3]
    unfolding H4_def saveVertexSigns_def by (simp add: ipow_def)
  then have in4: "\<forall>i<9. inside (H4 (?lsb ! i))"
    using v3 unfolding all_less_9 by (simp add: sgn)
  have solve: "evalLeaf_solve example_env 2 example_check example_region_inside () example_pool
      example_heap = (\<lparr>level = 0, tape = Some (), sub = ?lsb\<rparr>, ?no, \<lparr>free = [], fresh = 29\<rparr>, H4)"
    unfolding evalLeaf_solve_def b H4_def H3_def H2_def
    by (simp add: Let_def SimplexLeaf_reset_def)
  have ty': "type (fst (snd (collectChildren example_env 2 () 5 example_region
               example_root_empty example_pool example_heap))) = EMPTY"
    by code_simp
  have pre: "leaf example_root_empty = None" "pending example_root_empty = 0"
    "\<not> list_ex isBranch (children example_root_empty)"
    by (simp_all add: example_root_empty_def example_empty_def isBranch_def)
  note t1 = evalLeaf_classification[where env = example_env and N = 2 and check = example_check
      and region = example_region_inside and tp = "()" and p = example_pool and h = example_heap
      and t = example_unknown and max_err = 5]
  note t2 = evalLeaf_classification[where env = example_env and N = 2 and check = example_check
      and region = example_region and tp = "()" and p = example_pool and h = example_heap
      and t = example_root_empty and max_err = 5]
  have r1: "\<forall>a\<in>set ?lsb. refcount (H1 a) = 1"
    unfolding H1_def ex_borrow by (simp add: example_heap_def)
  have r2: "refcount (H2 a) = refcount (H1 a)" for a
    unfolding H2_def ex_sample by simp
  have r3: "refcount (H3 a) = refcount (H2 a)" for a
    unfolding H3_def ex_unroll by simp
  have r4: "refcount (H4 a) = refcount (H3 a)" for a
    unfolding H4_def saveVertexSigns_def by (rule saveVertexSigns_refcount)
  have rc: "{a \<in> set ?lsb. refcount (H4 a) = 1} = set ?lsb"
    using r1 unfolding r4 r3 r2 by blast
  have qz: "qef_zero example_env = []"
    by (simp add: example_env_def)
  obtain T' P' H' where ev: "evalLeaf example_env 2 example_check example_region_inside ()
               example_unknown example_pool example_heap = (T', P', H')"
    by (cases "evalLeaf example_env 2 example_check example_region_inside ()
               example_unknown example_pool example_heap")
  note t1' = t1[unfolded solve ev prod.case]
  have dist: "distinct (?lsb :: nat list)" by simp
  have tyF: "type T' = FILLED"
    using t1' in4 by (simp add: ipow_def)
  have lf: "leaf T' = None"
    using t1' tyF by simp
  have f: "set (free P') = set [] \<union> {a \<in> set ?lsb. refcount (H4 a) = 1}"
    and g: "H' a = (if a \<in> set ?lsb
                    then if refcount (H4 a) = 1 then SimplexLeafSubspace_reset 2 (qef_zero example_env)
                         else (H4 a)\<lparr>refcount := refcount (H4 a) - 1\<rparr>
                    else H4 a)" for a
    using t1' tyF dist by simp_all
  have r20: "refcount (H4 20) = 1"
    using r1 unfolding r4 r3 r2 by simp
  have e2: "set (free P') = {20, 21, 22, 23, 24, 25, 26, 27, 28}
      \<and> H' 20 = SimplexLeafSubspace_reset 2 []"
    unfolding f rc g by (simp add: r20 qz)
  have e: "type (fst (evalLeaf example_env 2 example_check example_region_inside ()
               example_unknown example_pool example_heap)) = FILLED
      \<and> leaf (fst (evalLeaf example_env 2 example_check example_region_inside ()
               example_unknown example_pool example_heap)) = None
      \<and> set (free (fst (snd (evalLeaf example_env 2 example_check example_region_inside ()
               example_unknown example_pool example_heap))))
         = {20, 21, 22, 23, 24, 25, 26, 27, 28}
      \<and> snd (snd (evalLeaf example_env 2 example_check example_region_inside () example_unknown
               example_pool example_heap)) 20 = SimplexLeafSubspace_reset 2 []"
    unfolding ev using tyF lf e2 by simp
  have ch: "children example_root_empty = [example_empty, example_empty, example_empty, example_empty]"
    by (simp add: example_root_empty_def)
  obtain R2 T2 P2 H2' where cc: "collectChildren example_env 2 () 5 example_region
      example_root_empty example_pool example_heap = (R2, T2, P2, H2')"
    by (cases "collectChildren example_env 2 () 5 example_region
      example_root_empty example_pool example_heap") auto
  note t2' = conjunct2[OF t2, unfolded cc prod.case]
  have tyE: "type T2 = EMPTY"
    using ty' unfolding cc by simp
  have c: "leaf T2 = None \<and> \<not> isBranch T2 \<and> (P2, H2') = (example_pool, example_heap)"
    using t2' tyE pre unfolding ch
    by (simp add: SimplexTree_releaseTo_def example_empty_def)
  have c': "type (fst (snd (collectChildren example_env 2 () 5 example_region example_root_empty
               example_pool example_heap))) = EMPTY
      \<and> leaf (fst (snd (collectChildren example_env 2 () 5 example_region example_root_empty
               example_pool example_heap))) = None
      \<and> \<not> isBranch (fst (snd (collectChildren example_env 2 () 5 example_region
               example_root_empty example_pool example_heap)))
      \<and> snd (snd (collectChildren example_env 2 () 5 example_region example_root_empty
               example_pool example_heap)) = (example_pool, example_heap)"
    unfolding cc using tyE c by simp
  show ?thesis
    using e c' by simp
qed

section \<open>Properties of assignIndices\<close>

lemma fold_append_log:
  assumes "\<And>x acc. x \<in> set xs \<Longrightarrow> F x acc = acc @ g x"
  shows "fold F xs acc = acc @ concat (map g xs)"
  using assms by (induction xs arbitrary: acc) auto

lemma fold_log_map: "fold (\<lambda>i visits. visits @ [f i]) xs acc = acc @ map f xs"
  by (induction xs arbitrary: acc) auto

lemma assign_walk_log:
  "assign_walk push (\<lambda>nb lsub i visits. visits @ [(nb, lsub, i)]) N t nb acc
     = acc @ assign_visits push N t nb"
proof (induction push "\<lambda>(nb::'a) (lsub::nat list) (i::nat) (visits::('a \<times> nat list \<times> nat) list). visits @ [(nb, lsub, i)]" N t nb acc
    rule: assign_walk.induct)
  case (1 push N t nb st)
  let ?body = "\<lambda>(nb::'a) (lsub::nat list) (i::nat) (visits::('a \<times> nat list \<times> nat) list). visits @ [(nb, lsub, i)]"
  show ?case
  proof (cases "isBranch t")
    case True
    have step: "assign_walk push ?body N (children t ! i) (push nb i (children t)) acc
        = acc @ assign_visits push N (children t ! i) (push nb i (children t))"
      if "i \<in> set [0..<length (children t)]" for i acc
      using 1[OF True that] .
    have a: "assign_walk push ?body N t nb st = st @ concat (map (\<lambda>i. assign_visits push N (children t ! i) (push nb i (children t))) [0..<length (children t)])"
      apply (subst assign_walk.simps)
      apply (simp only: True if_True)
      apply (rule fold_append_log)
      apply (rule step)
      apply assumption
      done
    have b: "assign_visits push N t nb = concat (map (\<lambda>i. assign_visits push N (children t ! i) (push nb i (children t))) [0..<length (children t)])"
      unfolding assign_visits_def[of push N t nb]
      apply (subst assign_walk.simps)
      apply (simp only: True if_True)
      apply (subst fold_append_log[where g = "\<lambda>i. assign_visits push N (children t ! i) (push nb i (children t))"])
       apply (rule step)
       apply assumption
      apply simp
      done
    show ?thesis using a b by simp
  next
    case False
    have e: "assign_walk push ?body N t nb x
        = (case leaf t of Some l \<Rightarrow> fold (?body nb (sub l)) [0..<ipow 3 N] x | None \<Rightarrow> x)" for x
      using False by (subst assign_walk.simps) simp
    show ?thesis
      unfolding assign_visits_def e by (simp add: fold_log_map split: option.splits)
  qed
qed

lemma assign_visits_branch:
  "isBranch t \<Longrightarrow> assign_visits push N t nb =
     concat (map (\<lambda>i. assign_visits push N (children t ! i) (push nb i (children t)))
               [0..<length (children t)])"
  unfolding assign_visits_def[of push N t nb]
  apply (subst assign_walk.simps)
  apply (simp only: if_True)
  apply (subst fold_append_log[where g = "\<lambda>i. assign_visits push N (children t ! i) (push nb i (children t))"])
   apply (rule assign_walk_log)
  apply simp
  done

lemma assign_visits_leaf:
  "\<not> isBranch t \<Longrightarrow> assign_visits push N t nb =
     (case leaf t of Some l \<Rightarrow> map (\<lambda>i. (nb, sub l, i)) [0..<ipow 3 N] | None \<Rightarrow> [])"
  unfolding assign_visits_def
  by (subst assign_walk.simps) (simp add: fold_log_map split: option.splits)

lemma fold_concat: "fold f (concat xss) st = fold (\<lambda>xs. fold f xs) xss st"
  by (induction xss arbitrary: st) auto

lemma assign_walk_visits:
  "assign_walk push body N t nb st
     = fold (\<lambda>(nb, lsub, i). body nb lsub i) (assign_visits push N t nb) st"
proof (induction push body N t nb st rule: assign_walk.induct)
  case (1 push body N t nb st)
  show ?case
  proof (cases "isBranch t")
    case True
    have step: "assign_walk push body N (children t ! i) (push nb i (children t)) x
        = fold (\<lambda>(nb, lsub, i). body nb lsub i)
            (assign_visits push N (children t ! i) (push nb i (children t))) x"
      if "i \<in> set [0..<length (children t)]" for i x
      using 1[OF True that] .
    have "assign_walk push body N t nb st
        = fold (\<lambda>i. assign_walk push body N (children t ! i) (push nb i (children t)))
            [0..<length (children t)] st"
      using True by (subst assign_walk.simps) simp
    also have "\<dots> = fold (\<lambda>i. fold (\<lambda>(nb, lsub, i). body nb lsub i)
            (assign_visits push N (children t ! i) (push nb i (children t))))
            [0..<length (children t)] st"
      by (rule fold_cong) (auto simp: step)
    also have "\<dots> = fold (\<lambda>(nb, lsub, i). body nb lsub i) (assign_visits push N t nb) st"
      unfolding assign_visits_branch[OF True] fold_concat by (simp add: fold_map comp_def)
    finally show ?thesis .
  next
    case False
    show ?thesis
      unfolding assign_visits_leaf[OF False] using False
      by (subst assign_walk.simps) (simp add: fold_map comp_def split: option.splits)
  qed
qed

lemma leaves_unfold:
  "leaves t = (if isBranch t then concat (map leaves (children t))
               else (case leaf t of Some l \<Rightarrow> [l] | None \<Rightarrow> []))"
  by (cases t) (simp add: isBranch_def)

lemma concat_map_nth:
  "concat (map (\<lambda>i. f (xs ! i)) [0..<length xs]) = concat (map f xs)"
proof -
  have "map (\<lambda>i. f (xs ! i)) [0..<length xs] = map f (map (\<lambda>i. xs ! i) [0..<length xs])"
    by simp
  then show ?thesis by (simp only: map_nth)
qed

lemma concat_map_concat_map:
  "concat (map (\<lambda>c. concat (map g (f c))) cs) = concat (map g (concat (map f cs)))"
  by (induction cs) auto

lemma assign_visits_slots:
  "map snd (assign_visits push N t nb)
     = concat (map (\<lambda>l. map (Pair (sub l)) [0..<ipow 3 N]) (leaves t))"
proof (induction t arbitrary: nb)
  case (SimplexTree ty lf cs pe dn)
  let ?t = "SimplexTree ty lf cs pe dn"
  let ?slots = "\<lambda>c. concat (map (\<lambda>l. map (Pair (sub l)) [0..<ipow 3 N]) (leaves c))"
  show ?case
  proof (cases "isBranch ?t")
    case True
    have ih: "map snd (assign_visits push N (cs ! i) (push nb i cs)) = ?slots (cs ! i)"
      if "i < length cs" for i
      using that by (intro SimplexTree.IH) simp
    have "map snd (assign_visits push N ?t nb)
        = concat (map (\<lambda>i. map snd (assign_visits push N (cs ! i) (push nb i cs)))
             [0..<length cs])"
      unfolding assign_visits_branch[OF True] by (simp add: map_concat comp_def)
    also have "\<dots> = concat (map (\<lambda>i. ?slots (cs ! i)) [0..<length cs])"
      by (rule arg_cong[where f = concat], rule map_cong) (simp_all add: ih)
    also have "\<dots> = concat (map ?slots cs)"
      by (rule concat_map_nth)
    also have "\<dots> = ?slots ?t"
      using True unfolding leaves_unfold[of ?t] concat_map_concat_map by simp
    finally show ?thesis .
  next
    case False
    show ?thesis
      unfolding assign_visits_leaf[OF False] leaves_unfold[of ?t] using False
      by (simp add: comp_def split: option.splits)
  qed
qed

lemma assign_visits_length:
  "length (assign_visits push N t nb) = ipow 3 N * length (leaves t)"
proof -
  have "length (assign_visits push N t nb) = length (map snd (assign_visits push N t nb))"
    by simp
  also have "\<dots> = length (concat (map (\<lambda>l. map (Pair (sub l)) [0..<ipow 3 N]) (leaves t)))"
    by (simp only: assign_visits_slots)
  also have "\<dots> = ipow 3 N * length (leaves t)"
    by (simp add: length_concat comp_def sum_list_triv)
  finally show ?thesis .
qed

lemma assign_visits_covers:
  assumes "l \<in> set (leaves t)" and "i < ipow 3 N"
  shows "\<exists>nb'. (nb', sub l, i) \<in> set (assign_visits push N t nb)"
proof -
  have "(sub l, i) \<in> set (concat (map (\<lambda>l. map (Pair (sub l)) [0..<ipow 3 N]) (leaves t)))"
    using assms by (auto intro!: bexI[of _ l])
  then have "(sub l, i) \<in> set (map snd (assign_visits push N t nb))"
    by (simp only: assign_visits_slots)
  then show ?thesis by auto
qed

lemma assign_visits_in_leaves:
  assumes "(nb', lsub, i) \<in> set (assign_visits push N t nb)"
  shows "\<exists>l\<in>set (leaves t). lsub = sub l \<and> i < ipow 3 N"
proof -
  have "(lsub, i) \<in> set (map snd (assign_visits push N t nb))"
    using assms by force
  then have "(lsub, i) \<in> set (concat (map (\<lambda>l. map (Pair (sub l)) [0..<ipow 3 N]) (leaves t)))"
    by (simp only: assign_visits_slots)
  then show ?thesis by auto
qed

lemma assign_log_fold:
  assumes "fold (\<lambda>(nb, lsub, i). assign_sub_log g nb lsub i) ops (c, h, l) = (c', h', l')"
  shows "fold (\<lambda>(nb, lsub, i). assign_sub g nb lsub i) ops (c, h) = (c', h')
     \<and> (\<exists>n\<le>length ops. c' = c + of_nat n \<and> l' = l @ map (\<lambda>k. c + of_nat k) [0..<n])"
  using assms
proof (induction ops arbitrary: c h l)
  case Nil
  then show ?case by simp
next
  case (Cons op ops)
  obtain nb lsub i where op: "op = (nb, lsub, i)" by (cases op)
  show ?case
  proof (cases "g nb h i = 0")
    case False
    let ?h1 = "h(lsub ! i := (h (lsub ! i))\<lparr>index := g nb h i\<rparr>)"
    have s: "assign_sub_log g nb lsub i (c, h, l) = (c, ?h1, l)"
      "assign_sub g nb lsub i (c, h) = (c, ?h1)"
      using False by (simp_all add: assign_sub_log_def assign_sub_def Let_def)
    from Cons.prems have "fold (\<lambda>(nb, lsub, i). assign_sub_log g nb lsub i) ops (c, ?h1, l) = (c', h', l')"
      by (simp add: op s)
    from Cons.IH[OF this] obtain n where
      f: "fold (\<lambda>(nb, lsub, i). assign_sub g nb lsub i) ops (c, ?h1) = (c', h')"
      and n: "n \<le> length ops" "c' = c + of_nat n" "l' = l @ map (\<lambda>k. c + of_nat k) [0..<n]"
      by blast
    have "fold (\<lambda>(nb, lsub, i). assign_sub g nb lsub i) (op # ops) (c, h) = (c', h')"
      using f by (simp add: op s)
    moreover have "n \<le> length (op # ops)" using n(1) by simp
    ultimately show ?thesis using n(2,3) by blast
  next
    case True
    let ?h1 = "h(lsub ! i := (h (lsub ! i))\<lparr>index := c\<rparr>)"
    have s: "assign_sub_log g nb lsub i (c, h, l) = (c + 1, ?h1, l @ [c])"
      "assign_sub g nb lsub i (c, h) = (c + 1, ?h1)"
      using True by (simp_all add: assign_sub_log_def assign_sub_def Let_def)
    from Cons.prems have "fold (\<lambda>(nb, lsub, i). assign_sub_log g nb lsub i) ops (c + 1, ?h1, l @ [c]) = (c', h', l')"
      by (simp add: op s)
    from Cons.IH[OF this] obtain n where
      f: "fold (\<lambda>(nb, lsub, i). assign_sub g nb lsub i) ops (c + 1, ?h1) = (c', h')"
      and n: "n \<le> length ops" "c' = c + 1 + of_nat n"
        "l' = (l @ [c]) @ map (\<lambda>k. c + 1 + of_nat k) [0..<n]"
      by blast
    have "map (\<lambda>k. c + of_nat k) [0..<Suc n] = c # map (\<lambda>k. c + 1 + of_nat k) [0..<n]"
      by (simp add: map_upt_Suc add.assoc del: upt_Suc)
    then have "l' = l @ map (\<lambda>k. c + of_nat k) [0..<Suc n]" using n(3) by simp
    moreover have "c' = c + of_nat (Suc n)" using n(2) by (simp add: add.assoc)
    moreover have "fold (\<lambda>(nb, lsub, i). assign_sub g nb lsub i) (op # ops) (c, h) = (c', h')"
      using f by (simp add: op s)
    moreover have "Suc n \<le> length (op # ops)" using n(1) by simp
    ultimately show ?thesis by blast
  qed
qed

lemma unat_Suc_word:
  fixes c :: "64 word"
  assumes "unat c + 1 < 2 ^ 64"
  shows "unat (c + 1) = unat c + 1"
  using assms by (simp add: unat_add_lem[THEN iffD1])

lemma assign_fold_nonzero:
  assumes "fold (\<lambda>(nb, lsub, i). assign_sub g nb lsub i) ops (c, h) = (c', h')"
    and "c \<noteq> 0" and "unat c + length ops < 2 ^ 64"
  shows "c' \<noteq> 0 \<and> (\<forall>a. index (h a) \<noteq> 0 \<longrightarrow> index (h' a) \<noteq> 0)
     \<and> (\<forall>(nb, lsub, i) \<in> set ops. index (h' (lsub ! i)) \<noteq> 0)"
  using assms
proof (induction ops arbitrary: c h)
  case Nil
  then show ?case by simp
next
  case (Cons op ops)
  obtain nb lsub i where op: "op = (nb, lsub, i)" by (cases op)
  show ?case
  proof (cases "g nb h i = 0")
    case False
    let ?h1 = "h(lsub ! i := (h (lsub ! i))\<lparr>index := g nb h i\<rparr>)"
    have s: "assign_sub g nb lsub i (c, h) = (c, ?h1)"
      using False by (simp add: assign_sub_def Let_def)
    have "fold (\<lambda>(nb, lsub, i). assign_sub g nb lsub i) ops (c, ?h1) = (c', h')"
      using Cons.prems(1) by (simp add: op s)
    from Cons.IH[OF this Cons.prems(2)] Cons.prems(3)
    have r: "c' \<noteq> 0" "\<And>a. index (?h1 a) \<noteq> 0 \<Longrightarrow> index (h' a) \<noteq> 0"
      "\<forall>(nb, lsub, i) \<in> set ops. index (h' (lsub ! i)) \<noteq> 0"
      by auto
    have "index (h' (lsub ! i)) \<noteq> 0" using r(2)[of "lsub ! i"] False by simp
    moreover have "index (h a) \<noteq> 0 \<longrightarrow> index (h' a) \<noteq> 0" for a
      using r(2)[of a] False by (cases "a = lsub ! i") auto
    ultimately show ?thesis using r(1) r(3) by (auto simp: op)
  next
    case True
    let ?h1 = "h(lsub ! i := (h (lsub ! i))\<lparr>index := c\<rparr>)"
    have s: "assign_sub g nb lsub i (c, h) = (c + 1, ?h1)"
      using True by (simp add: assign_sub_def Let_def)
    have u: "unat (c + 1) = unat c + 1"
      using Cons.prems(3) by (intro unat_Suc_word) simp
    then have nz: "c + 1 \<noteq> 0" by (metis Suc_eq_plus1 Zero_not_Suc unat_0)
    have "fold (\<lambda>(nb, lsub, i). assign_sub g nb lsub i) ops (c + 1, ?h1) = (c', h')"
      using Cons.prems(1) by (simp add: op s)
    from Cons.IH[OF this nz] Cons.prems(3) u
    have r: "c' \<noteq> 0" "\<And>a. index (?h1 a) \<noteq> 0 \<Longrightarrow> index (h' a) \<noteq> 0"
      "\<forall>(nb, lsub, i) \<in> set ops. index (h' (lsub ! i)) \<noteq> 0"
      by auto
    have "index (h' (lsub ! i)) \<noteq> 0" using r(2)[of "lsub ! i"] Cons.prems(2) by simp
    moreover have "index (h a) \<noteq> 0 \<longrightarrow> index (h' a) \<noteq> 0" for a
      using r(2)[of a] Cons.prems(2) by (cases "a = lsub ! i") auto
    ultimately show ?thesis using r(1) r(3) by (auto simp: op)
  qed
qed

lemma given_range: "map (\<lambda>k. 1 + of_nat k) [0..<n] = map (of_nat :: nat \<Rightarrow> 64 word) [1..<Suc n]"
proof -
  have "[1..<Suc n] = map Suc [0..<n]" by (simp add: map_Suc_upt del: upt_Suc)
  then show ?thesis by (simp add: comp_def del: upt_Suc)
qed

lemma assignIndices_log_facts:
  assumes "ipow 3 N * length (leaves t) < 2 ^ 64 - 1"
  shows "case assignIndices_log push getIndex nb0 N t h of (counter, h', given) \<Rightarrow>
           assignIndices push getIndex nb0 N t h = (counter, h')
         \<and> assignIndices push getIndex nb0 N t h
             = fold (\<lambda>(nb, lsub, i). assign_sub getIndex nb lsub i)
                 (assign_visits push N t nb0) (1, h)
         \<and> map snd (assign_visits push N t nb0)
             = concat (map (\<lambda>l. map (Pair (sub l)) [0..<ipow 3 N]) (leaves t))
         \<and> given = map of_nat [1..<Suc (length given)]
         \<and> counter = of_nat (Suc (length given))
         \<and> length given \<le> ipow 3 N * length (leaves t)
         \<and> (\<forall>l\<in>set (leaves t). \<forall>i<ipow 3 N. index (h' (sub l ! i)) \<noteq> 0)"
proof -
  let ?ops = "assign_visits push N t nb0"
  obtain counter h' given where r: "assignIndices_log push getIndex nb0 N t h = (counter, h', given)"
    by (cases "assignIndices_log push getIndex nb0 N t h")
  then have lg: "fold (\<lambda>(nb, lsub, i). assign_sub_log getIndex nb lsub i) ?ops (1, h, [])
      = (counter, h', given)"
    by (simp add: assignIndices_log_def assign_walk_visits)
  have a: "assignIndices push getIndex nb0 N t h
      = fold (\<lambda>(nb, lsub, i). assign_sub getIndex nb lsub i) ?ops (1, h)"
    by (simp add: assignIndices_def assign_walk_visits)
  from assign_log_fold[OF lg] obtain n where
    f: "fold (\<lambda>(nb, lsub, i). assign_sub getIndex nb lsub i) ?ops (1, h) = (counter, h')"
    and n: "n \<le> length ?ops" "counter = 1 + of_nat n"
      "given = [] @ map (\<lambda>k. 1 + of_nat k) [0..<n]"
    by blast
  have len: "length given = n" using n(3) by simp
  have g: "given = map of_nat [1..<Suc (length given)]"
    using n(3) given_range[of n] by (simp add: len del: upt_Suc)
  have c: "counter = of_nat (Suc (length given))"
    using n(2) by (simp add: len)
  have le: "length given \<le> ipow 3 N * length (leaves t)"
    using n(1) by (simp add: len assign_visits_length)
  have "unat (1 :: 64 word) + length ?ops < 2 ^ 64"
    using assms by (simp add: assign_visits_length)
  from assign_fold_nonzero[OF f _ this]
  have nz: "\<forall>(nb, lsub, i) \<in> set ?ops. index (h' (lsub ! i)) \<noteq> 0" by simp
  have z: "index (h' (sub l ! i)) \<noteq> 0" if "l \<in> set (leaves t)" "i < ipow 3 N" for l i
  proof -
    from assign_visits_covers[OF that, where push = push and nb = nb0] obtain nb' where "(nb', sub l, i) \<in> set ?ops" by blast
    with nz show ?thesis by blast
  qed
  show ?thesis
    unfolding r using a f assign_visits_slots[of push N t nb0] g c le z by simp
qed


lemma count_list_pos: "a \<in> set xs \<Longrightarrow> 0 < count_list xs a"
  by (simp add: count_list_0_iff zero_less_iff_neq_zero)

lemma unat_of_nat_64:
  assumes "n < 2 ^ 64"
  shows "unat (of_nat n :: 64 word) = n"
  using assms by (simp add: unsigned_of_nat take_bit_nat_eq_self)

lemma assign_fold_shared:
  fixes ops :: "('nb \<times> nat list \<times> nat) list" and h :: "('q, 's) heap"
  assumes G: "\<forall>(nb, lsub, i) \<in> set ops. \<forall>h :: ('q, 's) heap.
                g nb h i = (if S (lsub ! i) then index (h (lsub ! i)) else 0)"
      and P1: "\<forall>(nb, lsub, i) \<in> set ops. lsub ! i \<in> A \<longrightarrow> S (lsub ! i)"
      and P2: "\<forall>a. 1 < count_list (map (\<lambda>(nb, lsub, i). lsub ! i) ops) a \<longrightarrow> S a"
      and fin: "finite A"
      and bound: "card A + length ops < 2 ^ 64 - 1"
      and c: "c = of_nat (Suc (card A))"
      and inj: "inj_on (\<lambda>a. index (h a)) A"
      and rng: "\<forall>a\<in>A. 0 < unat (index (h a)) \<and> unat (index (h a)) \<le> card A"
      and zero: "\<forall>(nb, lsub, i) \<in> set ops. lsub ! i \<notin> A \<longrightarrow> index (h (lsub ! i)) = 0"
  shows "case fold (\<lambda>(nb, lsub, i). assign_sub g nb lsub i) ops (c, h) of (c', h') \<Rightarrow>
           c' = of_nat (Suc (card (A \<union> (\<lambda>(nb, lsub, i). lsub ! i) ` set ops)))
         \<and> inj_on (\<lambda>a. index (h' a)) (A \<union> (\<lambda>(nb, lsub, i). lsub ! i) ` set ops)
         \<and> (\<forall>a \<in> A \<union> (\<lambda>(nb, lsub, i). lsub ! i) ` set ops.
               0 < unat (index (h' a))
             \<and> unat (index (h' a)) \<le> card (A \<union> (\<lambda>(nb, lsub, i). lsub ! i) ` set ops))"
  using assms
proof (induction ops arbitrary: A c h)
  case Nil
  then show ?case by simp
next
  case (Cons op ops)
  obtain nb lsub i where op: "op = (nb, lsub, i)" by (cases op)
  define a where "a = lsub ! i"
  define addr where "addr = (\<lambda>(nb :: 'nb, lsub :: nat list, i :: nat). lsub ! i)"
  note addr = addr_def[symmetric]
  have G': "\<forall>(nb, lsub, i) \<in> set ops. \<forall>h :: ('q, 's) heap.
                g nb h i = (if S (lsub ! i) then index (h (lsub ! i)) else 0)"
    using Cons.prems(1) by simp
  have ga: "g nb h' i = (if S a then index (h' a) else 0)" for h' :: "('q, 's) heap"
    using Cons.prems(1) by (simp add: op a_def)
  have P2': "\<forall>b. 1 < count_list (map (\<lambda>(nb, lsub, i). lsub ! i) ops) b \<longrightarrow> S b"
    using Cons.prems(3) by (auto simp: op)
  show ?case
  proof (cases "a \<in> A")
    case True
    then have Sa: "S a" using Cons.prems(2) by (simp add: op a_def)
    have nz: "index (h a) \<noteq> 0"
      using Cons.prems(8) True by (metis less_irrefl unat_0)
    have "(h a)\<lparr>index := index (h a)\<rparr> = h a" by simp
    then have s: "assign_sub g nb lsub i (c, h) = (c, h)"
      using nz Sa by (simp add: assign_sub_def Let_def ga a_def[symmetric])
    have st: "fold (\<lambda>(nb, lsub, i). assign_sub g nb lsub i) (op # ops) (c, h)
        = fold (\<lambda>(nb, lsub, i). assign_sub g nb lsub i) ops (c, h)"
      by (simp add: op s)
    have same: "A \<union> (\<lambda>(nb, lsub, i). lsub ! i) ` set (op # ops)
        = A \<union> (\<lambda>(nb, lsub, i). lsub ! i) ` set ops"
      using True by (auto simp: op a_def)
    have "case fold (\<lambda>(nb, lsub, i). assign_sub g nb lsub i) ops (c, h) of (c', h') \<Rightarrow>
           c' = of_nat (Suc (card (A \<union> (\<lambda>(nb, lsub, i). lsub ! i) ` set ops)))
         \<and> inj_on (\<lambda>a. index (h' a)) (A \<union> (\<lambda>(nb, lsub, i). lsub ! i) ` set ops)
         \<and> (\<forall>a \<in> A \<union> (\<lambda>(nb, lsub, i). lsub ! i) ` set ops.
               0 < unat (index (h' a))
             \<and> unat (index (h' a)) \<le> card (A \<union> (\<lambda>(nb, lsub, i). lsub ! i) ` set ops))"
    proof (rule Cons.IH[OF G' _ P2' Cons.prems(4) _ Cons.prems(6) Cons.prems(7) Cons.prems(8)])
      show "\<forall>(nb, lsub, i) \<in> set ops. lsub ! i \<in> A \<longrightarrow> S (lsub ! i)"
        using Cons.prems(2) by simp
      show "card A + length ops < 2 ^ 64 - 1"
        using Cons.prems(5) by simp
      show "\<forall>(nb, lsub, i) \<in> set ops. lsub ! i \<notin> A \<longrightarrow> index (h (lsub ! i)) = 0"
        using Cons.prems(9) by simp
    qed
    then show ?thesis unfolding st same .
  next
    case False
    have z: "index (h a) = 0"
      using Cons.prems(9) False by (simp add: op a_def)
    define h1 where "h1 = h(a := (h a)\<lparr>index := c\<rparr>)"
    define A1 where "A1 = insert a A"
    have s: "assign_sub g nb lsub i (c, h) = (c + 1, h1)"
      using z by (simp add: assign_sub_def Let_def ga a_def[symmetric] h1_def)
    have st: "fold (\<lambda>(nb, lsub, i). assign_sub g nb lsub i) (op # ops) (c, h)
        = fold (\<lambda>(nb, lsub, i). assign_sub g nb lsub i) ops (c + 1, h1)"
      by (simp add: op s)
    have same: "A \<union> (\<lambda>(nb, lsub, i). lsub ! i) ` set (op # ops)
        = A1 \<union> (\<lambda>(nb, lsub, i). lsub ! i) ` set ops"
      by (auto simp: op a_def A1_def)
    have card1: "card A1 = Suc (card A)"
      using False Cons.prems(4) by (simp add: A1_def)
    have small: "Suc (card A) < 2 ^ 64"
      using Cons.prems(5) by simp
    have uc: "unat c = Suc (card A)"
      unfolding Cons.prems(6) using small by (rule unat_of_nat_64)
    have old: "index (h1 b) = index (h b)" if "b \<noteq> a" for b
      using that by (simp add: h1_def)
    have new: "index (h1 a) = c" by (simp add: h1_def)
    have "case fold (\<lambda>(nb, lsub, i). assign_sub g nb lsub i) ops (c + 1, h1) of (c', h') \<Rightarrow>
           c' = of_nat (Suc (card (A1 \<union> (\<lambda>(nb, lsub, i). lsub ! i) ` set ops)))
         \<and> inj_on (\<lambda>a. index (h' a)) (A1 \<union> (\<lambda>(nb, lsub, i). lsub ! i) ` set ops)
         \<and> (\<forall>a \<in> A1 \<union> (\<lambda>(nb, lsub, i). lsub ! i) ` set ops.
               0 < unat (index (h' a))
             \<and> unat (index (h' a)) \<le> card (A1 \<union> (\<lambda>(nb, lsub, i). lsub ! i) ` set ops))"
    proof (rule Cons.IH[OF G' _ P2'])
      show "\<forall>(nb, lsub, i) \<in> set ops. lsub ! i \<in> A1 \<longrightarrow> S (lsub ! i)"
      proof (clarify)
        fix nb' lsub' i'
        assume m: "(nb', lsub', i') \<in> set ops" and in1: "lsub' ! i' \<in> A1"
        show "S (lsub' ! i')"
        proof (cases "lsub' ! i' = a")
          case True
          have "a \<in> set (map (\<lambda>(nb, lsub, i). lsub ! i) ops)"
            using m True by force
          then have "0 < count_list (map (\<lambda>(nb, lsub, i). lsub ! i) ops) a"
            by (rule count_list_pos)
          then have "1 < count_list (map (\<lambda>(nb, lsub, i). lsub ! i) (op # ops)) a"
            by (simp add: op a_def)
          then show ?thesis using Cons.prems(3) True by blast
        next
          case False
          then have "lsub' ! i' \<in> A" using in1 by (simp add: A1_def)
          then show ?thesis using Cons.prems(2) m by auto
        qed
      qed
      show "finite A1" using Cons.prems(4) by (simp add: A1_def)
      show "card A1 + length ops < 2 ^ 64 - 1"
        using Cons.prems(5) by (simp add: card1)
      show "c + 1 = of_nat (Suc (card A1))"
        by (simp add: card1 Cons.prems(6))
      show "inj_on (\<lambda>a. index (h1 a)) A1"
      proof (rule inj_onI)
        fix x y assume x: "x \<in> A1" and y: "y \<in> A1" and e: "index (h1 x) = index (h1 y)"
        have ne: "index (h b) \<noteq> c" if "b \<in> A" for b
        proof
          assume "index (h b) = c"
          then have "unat (index (h b)) = Suc (card A)" using uc by simp
          then show False using Cons.prems(8) that by fastforce
        qed
        show "x = y"
        proof (cases "x = a")
          case xa: True
          show ?thesis
          proof (cases "y = a")
            case True
            then show ?thesis using xa by simp
          next
            case False
            then have "y \<in> A" using y by (simp add: A1_def)
            then show ?thesis using e ne[of y] False xa by (simp add: old new)
          qed
        next
          case xa: False
          then have xA: "x \<in> A" using x by (simp add: A1_def)
          show ?thesis
          proof (cases "y = a")
            case True
            then show ?thesis using e ne[OF xA] xa by (simp add: old new)
          next
            case False
            then have "y \<in> A" using y by (simp add: A1_def)
            then show ?thesis
              using e xa False xA Cons.prems(7) by (simp add: old inj_on_def)
          qed
        qed
      qed
      show "\<forall>b\<in>A1. 0 < unat (index (h1 b)) \<and> unat (index (h1 b)) \<le> card A1"
      proof
        fix b assume b: "b \<in> A1"
        show "0 < unat (index (h1 b)) \<and> unat (index (h1 b)) \<le> card A1"
        proof (cases "b = a")
          case True
          then show ?thesis by (simp add: new uc card1)
        next
          case False
          then have "b \<in> A" using b by (simp add: A1_def)
          then show ?thesis using Cons.prems(8) False by (auto simp: old card1)
        qed
      qed
      show "\<forall>(nb, lsub, i) \<in> set ops. lsub ! i \<notin> A1 \<longrightarrow> index (h1 (lsub ! i)) = 0"
        using Cons.prems(9) by (auto simp: A1_def old)
    qed
    then show ?thesis unfolding st same .
  qed
qed

lemma assign_visits_objects:
  "map (\<lambda>(nb, lsub, i). lsub ! i) (assign_visits push N t nb) = subspace_objects N t"
proof -
  have "map (\<lambda>(nb, lsub, i). lsub ! i) (assign_visits push N t nb)
      = map (\<lambda>(lsub, i). lsub ! i) (map snd (assign_visits push N t nb))"
    by (simp add: case_prod_unfold comp_def)
  then show ?thesis
    unfolding assign_visits_slots subspace_objects_def
    by (simp add: map_concat comp_def)
qed

text \<open>
  Claim C8: \<^verbatim>\<open>assignIndices\<close> starts its counter at 1 and performs, in depth-first order,
  the assignment of lines 594-599 for each of the \<open>3 ^ N\<close> subspaces of every leaf that
  holds a \<^verbatim>\<open>SimplexLeaf\<close>: the index found through the neighbours when there is one, the
  next counter value otherwise. The values given out by the counter are \<open>1, \<dots>, U\<close> in
  this order, and the counter ends at \<open>U + 1\<close>. When the number of subspaces is below
  \<open>2 ^ 64 - 1\<close> (the counter is a \<^verbatim>\<open>uint64_t\<close>), every subspace of every such leaf has a
  nonzero index after the walk. So far for every \<^verbatim>\<open>push\<close> and \<^verbatim>\<open>getIndex\<close>. When
  \<^verbatim>\<open>getIndex\<close> does what the specification says of it (for a subspace object that more
  than one subspace of the tree's leaves points to, it returns the index stored in the
  object, and \<open>0\<close> for an object that is not shared) and no subspace object of the tree
  has an index before the walk, \<open>U\<close> is the number of distinct subspace objects, and
  the walk leaves them numbered \<open>1, \<dots>, U\<close>: every number for exactly one object.
\<close>

theorem assignIndices_dense:
  fixes h :: "('q, 's) heap"
  assumes "ipow 3 N * length (leaves t) < 2 ^ 64 - 1"
  shows "case assignIndices_log push getIndex nb0 N t h of (counter, h', given) \<Rightarrow>
           assignIndices push getIndex nb0 N t h = (counter, h')
         \<and> assignIndices push getIndex nb0 N t h
             = fold (\<lambda>(nb, lsub, i). assign_sub getIndex nb lsub i)
                 (assign_visits push N t nb0) (1, h)
         \<and> map snd (assign_visits push N t nb0)
             = concat (map (\<lambda>l. map (Pair (sub l)) [0..<ipow 3 N]) (leaves t))
         \<and> given = map of_nat [1..<Suc (length given)]
         \<and> counter = of_nat (Suc (length given))
         \<and> length given \<le> ipow 3 N * length (leaves t)
         \<and> (\<forall>l\<in>set (leaves t). \<forall>i<ipow 3 N. index (h' (sub l ! i)) \<noteq> 0)
         \<and> ((\<forall>(nb, lsub, i) \<in> set (assign_visits push N t nb0). \<forall>h :: ('q, 's) heap.
                 getIndex nb h i
                   = (if 1 < count_list (subspace_objects N t) (lsub ! i)
                      then index (h (lsub ! i)) else 0))
             \<and> (\<forall>a \<in> set (subspace_objects N t). index (h a) = 0)
             \<longrightarrow> length given = card (set (subspace_objects N t))
               \<and> inj_on (\<lambda>a. index (h' a)) (set (subspace_objects N t))
               \<and> (\<lambda>a. unat (index (h' a))) ` set (subspace_objects N t) = {1..length given})"
proof -
  let ?ops = "assign_visits push N t nb0"
  let ?objs = "subspace_objects N t"
  obtain counter h' given where r: "assignIndices_log push getIndex nb0 N t h = (counter, h', given)"
    by (cases "assignIndices_log push getIndex nb0 N t h")
  note facts = assignIndices_log_facts[OF assms, of push getIndex nb0 h, unfolded r prod.case]
  have a1: "assignIndices push getIndex nb0 N t h = (counter, h')"
    and a2: "assignIndices push getIndex nb0 N t h
       = fold (\<lambda>(nb, lsub, i). assign_sub getIndex nb lsub i) ?ops (1, h)"
    and cnt: "counter = of_nat (Suc (length given))"
    and le: "length given \<le> ipow 3 N * length (leaves t)"
    using facts by blast+
  have f: "fold (\<lambda>(nb, lsub, i). assign_sub getIndex nb lsub i) ?ops (1, h) = (counter, h')"
    unfolding a2[symmetric] by (rule a1)
  have objs: "map (\<lambda>(nb, lsub, i). lsub ! i) ?ops = ?objs"
    by (rule assign_visits_objects)
  have img: "(\<lambda>(nb, lsub, i). lsub ! i) ` set ?ops = set ?objs"
    unfolding objs[symmetric] by simp
  have len: "length ?ops = ipow 3 N * length (leaves t)"
    by (rule assign_visits_length)
  have new: "length given = card (set ?objs)
      \<and> inj_on (\<lambda>a. index (h' a)) (set ?objs)
      \<and> (\<lambda>a. unat (index (h' a))) ` set ?objs = {1..length given}"
    if G: "\<forall>(nb, lsub, i) \<in> set ?ops. \<forall>h :: ('q, 's) heap.
             getIndex nb h i = (if 1 < count_list ?objs (lsub ! i) then index (h (lsub ! i)) else 0)"
      and Z: "\<forall>a \<in> set ?objs. index (h a) = 0"
  proof -
    have "case fold (\<lambda>(nb, lsub, i). assign_sub getIndex nb lsub i) ?ops (1, h) of (c', h') \<Rightarrow>
           c' = of_nat (Suc (card ({} \<union> (\<lambda>(nb, lsub, i). lsub ! i) ` set ?ops)))
         \<and> inj_on (\<lambda>a. index (h' a)) ({} \<union> (\<lambda>(nb, lsub, i). lsub ! i) ` set ?ops)
         \<and> (\<forall>a \<in> {} \<union> (\<lambda>(nb, lsub, i). lsub ! i) ` set ?ops.
               0 < unat (index (h' a))
             \<and> unat (index (h' a)) \<le> card ({} \<union> (\<lambda>(nb, lsub, i). lsub ! i) ` set ?ops))"
    proof (rule assign_fold_shared[where S = "\<lambda>a. 1 < count_list ?objs a"])
      show "\<forall>(nb, lsub, i) \<in> set ?ops. \<forall>h :: ('q, 's) heap.
             getIndex nb h i = (if 1 < count_list ?objs (lsub ! i) then index (h (lsub ! i)) else 0)"
        by (rule G)
      show "\<forall>a. 1 < count_list (map (\<lambda>(nb, lsub, i). lsub ! i) ?ops) a \<longrightarrow> 1 < count_list ?objs a"
        unfolding objs by simp
      show "card {} + length ?ops < 2 ^ 64 - 1"
        using assms by (simp add: len)
      show "\<forall>(nb, lsub, i) \<in> set ?ops. lsub ! i \<notin> {} \<longrightarrow> index (h (lsub ! i)) = 0"
        using Z img by force
    qed simp_all
    then have c2: "counter = of_nat (Suc (card (set ?objs)))"
      and inj: "inj_on (\<lambda>a. index (h' a)) (set ?objs)"
      and rng: "\<forall>a \<in> set ?objs. 0 < unat (index (h' a)) \<and> unat (index (h' a)) \<le> card (set ?objs)"
      unfolding f img by simp_all
    have "card (set ?objs) \<le> length ?objs" by (rule card_length)
    also have "length ?objs = length ?ops" unfolding objs[symmetric] by simp
    finally have cb: "card (set ?objs) \<le> ipow 3 N * length (leaves t)" by (simp add: len)
    have "unat (of_nat (Suc (length given)) :: 64 word) = Suc (length given)"
      using le assms by (intro unat_of_nat_64) simp
    moreover have "unat (of_nat (Suc (card (set ?objs))) :: 64 word) = Suc (card (set ?objs))"
      using cb assms by (intro unat_of_nat_64) simp
    ultimately have U: "length given = card (set ?objs)"
      using cnt c2 by simp
    have inj': "inj_on (\<lambda>a. unat (index (h' a))) (set ?objs)"
      using inj by (auto simp: inj_on_def dest: word_unat_eq_iff[THEN iffD2])
    have sub: "(\<lambda>a. unat (index (h' a))) ` set ?objs \<subseteq> {1..length given}"
      using rng unfolding U by auto
    have "card ((\<lambda>a. unat (index (h' a))) ` set ?objs) = card {1..length given}"
      using card_image[OF inj'] U by simp
    with sub have "(\<lambda>a. unat (index (h' a))) ` set ?objs = {1..length given}"
      by (intro card_subset_eq) simp_all
    with U inj show ?thesis by simp
  qed
  show ?thesis
    unfolding r prod.case using facts new by blast
qed

lemma example_visits:
  "assign_visits neighbors_push 2 example_root neighbors_empty
     = map (\<lambda>i. ((Some example_node_A, [example_node_B, example_empty, example_empty]),
                 sub example_leaf_A, i)) [0..<9]
       @ map (\<lambda>i. ((Some example_node_B, [example_node_A, example_empty, example_empty]),
                 sub example_leaf_B, i)) [0..<9]"
proof -
  have br: "isBranch example_root"
    by (simp add: example_root_def example_children_def isBranch_def)
  have lf: "\<not> isBranch example_node_A" "\<not> isBranch example_node_B" "\<not> isBranch example_empty"
    by (simp_all add: example_node_A_def example_node_B_def example_empty_def isBranch_def)
  have ch: "children example_root = [example_node_A, example_node_B, example_empty, example_empty]"
    by (simp add: example_root_def example_children_def)
  have vA: "assign_visits neighbors_push 2 example_node_A nb
      = map (\<lambda>i. (nb, sub example_leaf_A, i)) [0..<9]" for nb
    unfolding assign_visits_leaf[OF lf(1)] by (simp add: example_node_A_def ipow_def)
  have vB: "assign_visits neighbors_push 2 example_node_B nb
      = map (\<lambda>i. (nb, sub example_leaf_B, i)) [0..<9]" for nb
    unfolding assign_visits_leaf[OF lf(2)] by (simp add: example_node_B_def ipow_def)
  have vE: "assign_visits neighbors_push 2 example_empty nb = []" for nb
    unfolding assign_visits_leaf[OF lf(3)] by (simp add: example_empty_def)
  show ?thesis
    unfolding assign_visits_branch[OF br] ch
    by (simp add: upt_0_4 vA vB vE neighbors_push_def neighbors_empty_def)
qed

lemma example_objects:
  "subspace_objects 2 example_root
     = [1, 2, 3, 4, 5, 6, 7, 8, 9, 3, 10, 11, 6, 12, 13, 9, 14, 15]"
  by (simp add: subspace_objects_def example_root_def example_children_def example_node_A_def
      example_node_B_def example_empty_def example_leaf_A_def example_leaf_B_def ipow_def upt_0_9)

theorem assignIndices_dense_witness:
  "fst (assignIndices neighbors_push neighbors_getIndex neighbors_empty 2 example_root
          example_heap) = 16
   \<and> card (set (subspace_objects 2 example_root)) = 15
   \<and> length (subspace_objects 2 example_root) = 18
   \<and> index (snd (assignIndices neighbors_push neighbors_getIndex neighbors_empty 2 example_root
                 example_heap) 4) \<noteq> 0
   \<and> index (snd (assignIndices neighbors_push neighbors_getIndex neighbors_empty 2 example_root
                 example_heap) 15) \<noteq> 0"
proof -
  have lv: "leaves example_root = [example_leaf_A, example_leaf_B]"
    by (simp add: example_root_def example_children_def example_node_A_def example_node_B_def
        example_empty_def)
  have b: "ipow 3 2 * length (leaves example_root) < 2 ^ 64 - 1"
    by (simp add: lv ipow_def)
  have G: "\<forall>(nb, lsub, i) \<in> set (assign_visits neighbors_push 2 example_root neighbors_empty).
      \<forall>h :: (nat list, int) heap. neighbors_getIndex nb h i
         = (if 1 < count_list (subspace_objects 2 example_root) (lsub ! i)
            then index (h (lsub ! i)) else 0)"
    unfolding example_visits example_objects
    by (simp add: upt_0_9 neighbors_getIndex_def example_node_A_def example_node_B_def
        example_empty_def example_leaf_A_def example_leaf_B_def)
  have Z: "\<forall>a \<in> set (subspace_objects 2 example_root). index (example_heap a) = 0"
    by (simp add: example_heap_def)
  have cd: "card (set (subspace_objects 2 example_root)) = 15"
    unfolding example_objects card_set by code_simp
  obtain counter h' given where r: "assignIndices_log neighbors_push neighbors_getIndex
      neighbors_empty 2 example_root example_heap = (counter, h', given)"
    by (cases "assignIndices_log neighbors_push neighbors_getIndex
      neighbors_empty 2 example_root example_heap")
  note t = assignIndices_dense[OF b, where push = neighbors_push
      and getIndex = neighbors_getIndex and ?nb0.0 = neighbors_empty and h = example_heap,
      unfolded r prod.case]
  have a1: "assignIndices neighbors_push neighbors_getIndex neighbors_empty 2 example_root
      example_heap = (counter, h')"
    and cnt: "counter = of_nat (Suc (length given))"
    and nz: "\<forall>l\<in>set (leaves example_root). \<forall>i<ipow 3 2. index (h' (sub l ! i)) \<noteq> 0"
    and U: "length given = card (set (subspace_objects 2 example_root))"
    using t G Z by blast+
  have c16: "counter = 16"
    unfolding cnt U cd by simp
  have "index (h' (sub example_leaf_A ! 3)) \<noteq> 0" "index (h' (sub example_leaf_B ! 8)) \<noteq> 0"
    using nz by (simp_all add: lv ipow_def)
  then have "index (h' 4) \<noteq> 0" "index (h' 15) \<noteq> 0"
    by (simp_all add: example_leaf_A_def example_leaf_B_def)
  then show ?thesis
    unfolding a1 using c16 cd by (simp add: example_objects)
qed

lemma assign_fold_zero:
  assumes "\<forall>(nb, lsub, i) \<in> set ops. \<forall>h. g nb h i = 0"
  shows "fold (\<lambda>(nb, lsub, i). assign_sub g nb lsub i) ops (c, h)
     = (c + of_nat (length ops),
        fold (\<lambda>(a, v) h. h(a := (h a)\<lparr>index := v\<rparr>))
          (zip (map (\<lambda>(nb, lsub, i). lsub ! i) ops) (map (\<lambda>k. c + of_nat k) [0..<length ops])) h)"
  using assms
proof (induction ops arbitrary: c h)
  case Nil
  then show ?case by simp
next
  case (Cons op ops)
  obtain nb lsub i where op: "op = (nb, lsub, i)" by (cases op)
  have z: "g nb h i = 0" using Cons.prems by (simp add: op)
  let ?h1 = "h(lsub ! i := (h (lsub ! i))\<lparr>index := c\<rparr>)"
  have s: "assign_sub g nb lsub i (c, h) = (c + 1, ?h1)"
    using z by (simp add: assign_sub_def Let_def)
  have m: "map (\<lambda>k. c + of_nat k) [0..<Suc (length ops)]
      = c # map (\<lambda>k. c + 1 + of_nat k) [0..<length ops]"
    by (simp add: map_upt_Suc add.assoc del: upt_Suc)
  have "fold (\<lambda>(nb, lsub, i). assign_sub g nb lsub i) (op # ops) (c, h)
      = fold (\<lambda>(nb, lsub, i). assign_sub g nb lsub i) ops (c + 1, ?h1)"
    by (simp add: op s)
  also have "\<dots> = (c + 1 + of_nat (length ops),
        fold (\<lambda>(a, v) h. h(a := (h a)\<lparr>index := v\<rparr>))
          (zip (map (\<lambda>(nb, lsub, i). lsub ! i) ops)
               (map (\<lambda>k. c + 1 + of_nat k) [0..<length ops])) ?h1)"
    using Cons.prems by (intro Cons.IH) simp
  also have "\<dots> = (c + of_nat (length (op # ops)),
        fold (\<lambda>(a, v) h. h(a := (h a)\<lparr>index := v\<rparr>))
          (zip (map (\<lambda>(nb, lsub, i). lsub ! i) (op # ops))
               (map (\<lambda>k. c + of_nat k) [0..<length (op # ops)])) h)"
    unfolding length_Cons m by (simp add: op add.assoc)
  finally show ?case .
qed

lemma writes_at:
  "fold (\<lambda>(a, v) h. h(a := (h a)\<lparr>index := v\<rparr>)) W h x
     = (case map_of (rev W) x of None \<Rightarrow> h x | Some v \<Rightarrow> (h x)\<lparr>index := v\<rparr>)"
proof (induction W arbitrary: h)
  case Nil
  then show ?case by simp
next
  case (Cons w W)
  obtain a v where w: "w = (a, v)" by (cases w)
  let ?F = "\<lambda>(a, v) h. h(a := (h a)\<lparr>index := v\<rparr>)"
  let ?h1 = "h(a := (h a)\<lparr>index := v\<rparr>)"
  have "fold ?F (w # W) h = fold ?F W ?h1"
    unfolding w by (simp only: fold_Cons comp_apply case_prod_conv)
  then have "fold ?F (w # W) h x = fold ?F W ?h1 x" by (rule arg_cong[where f = "\<lambda>f. f x"])
  also have "\<dots> = (case map_of (rev W) x of None \<Rightarrow> ?h1 x | Some v' \<Rightarrow> (?h1 x)\<lparr>index := v'\<rparr>)"
    by (rule Cons)
  also have "\<dots> = (case map_of (rev (w # W)) x of None \<Rightarrow> h x | Some v' \<Rightarrow> (h x)\<lparr>index := v'\<rparr>)"
    by (simp add: w map_add_def split: option.splits)
  finally show ?case .
qed

lemma writes_idem:
  "fold (\<lambda>(a, v) h. h(a := (h a)\<lparr>index := v\<rparr>)) W
      (fold (\<lambda>(a, v) h. h(a := (h a)\<lparr>index := v\<rparr>)) W h)
     = fold (\<lambda>(a, v) h. h(a := (h a)\<lparr>index := v\<rparr>)) W h"
  by (rule ext) (simp add: writes_at split: option.splits)

text \<open>
  Claim C9, as amended: when no subspace of the tree finds an index through a
  neighbour, a second call of \<^verbatim>\<open>assignIndices\<close> assigns to every subspace the index it
  received from the first call (and returns the same counter).
\<close>

theorem assignIndices_twice_without_neighbours:
  assumes "\<forall>(nb, lsub, i) \<in> set (assign_visits push N t nb0). \<forall>h. getIndex nb h i = 0"
  shows "assignIndices push getIndex nb0 N t (snd (assignIndices push getIndex nb0 N t h))
       = assignIndices push getIndex nb0 N t h"
  unfolding assignIndices_def assign_walk_visits assign_fold_zero[OF assms]
  by (simp add: writes_idem)

theorem assignIndices_twice_without_neighbours_witness:
  "assignIndices neighbors_push neighbors_getIndex neighbors_empty 2 example_node_A
      (snd (assignIndices neighbors_push neighbors_getIndex neighbors_empty 2 example_node_A
              example_heap))
   = assignIndices neighbors_push neighbors_getIndex neighbors_empty 2 example_node_A example_heap"
proof -
  have nb: "\<not> isBranch example_node_A"
    by (simp add: example_node_A_def isBranch_def)
  have v: "assign_visits neighbors_push 2 example_node_A neighbors_empty
      = map (\<lambda>i. (neighbors_empty, sub example_leaf_A, i)) [0..<ipow 3 2]"
    unfolding assign_visits_leaf[OF nb] by (simp add: example_node_A_def)
  have "\<forall>(nb, lsub, i) \<in> set (assign_visits neighbors_push 2 example_node_A neighbors_empty).
      \<forall>h :: (nat list, int) heap. neighbors_getIndex nb h i = 0"
    unfolding v by (simp add: neighbors_getIndex_def neighbors_empty_def)
  then show ?thesis
    by (rule assignIndices_twice_without_neighbours)
qed

text \<open>
  Claim C9 as stated fails when leaves share subspaces. In the example tree the first
  call numbers the subspaces of the first leaf 1 to 9 (its neighbour has no index
  yet). In the second call the counter starts at 1 again, but subspace 2 of the first
  leaf now finds the index 3 through its neighbour and takes no counter value, so the
  next subspace (the object at address 4) receives 3 where the first call gave it 4,
  and two subspaces carry the index 3.
\<close>

lemma assign_sub_apply:
  "assign_sub getIndex nb lsub i (counter, h) =
     (if getIndex nb h i \<noteq> 0
      then (counter, h(lsub ! i := (h (lsub ! i))\<lparr>index := getIndex nb h i\<rparr>))
      else (counter + 1, h(lsub ! i := (h (lsub ! i))\<lparr>index := counter\<rparr>)))"
  by (simp add: assign_sub_def Let_def)

theorem assignIndices_twice_differs:
  "index (snd (assignIndices neighbors_push neighbors_getIndex neighbors_empty 2 example_root
                 example_heap) 4) = 4
   \<and> index (snd (assignIndices neighbors_push neighbors_getIndex neighbors_empty 2 example_root
        (snd (assignIndices neighbors_push neighbors_getIndex neighbors_empty 2 example_root
                 example_heap))) 4) = 3
   \<and> index (snd (assignIndices neighbors_push neighbors_getIndex neighbors_empty 2 example_root
        (snd (assignIndices neighbors_push neighbors_getIndex neighbors_empty 2 example_root
                 example_heap))) 3) = 3"
  unfolding assignIndices_def assign_walk_visits example_visits
  by (simp add: upt_0_9 assign_sub_apply neighbors_getIndex_def example_node_A_def
      example_node_B_def example_empty_def example_leaf_A_def example_leaf_B_def
      example_heap_def)

end
